theory Spec2Isabelle
  imports Main
begin

section \<open>Data model of the editor (module script of \<open>src/unnamed/part_001\<close>)\<close>

text \<open>
  The component under verification is the Svelte code editor of \<open>src/unnamed/part_001\<close>
  (the same history code is in \<open>src/src/lib/Editor.svelte\<close>, which lacks the
  insert-pair branch of the key handler). A JavaScript string is modelled as a
  \<open>string\<close>, one \<open>char\<close> per code unit; JavaScript numbers that hold positions, offsets
  and timestamps are modelled as \<open>int\<close>.
\<close>

record Rec =
  "value" :: string
  selectionStart :: int
  selectionEnd :: int

text \<open>\<open>Rec & { timestamp: number }\<close>: the element type of the history stack.\<close>

record Entry = Rec +
  timestamp :: int

record History =
  stack :: "Entry list"
  offset :: int

definition HISTORY_LIMIT :: int where
  "HISTORY_LIMIT = 100"

definition HISTORY_TIME_GAP :: int where
  "HISTORY_TIME_GAP = 3000"

text \<open>The table \<open>PAIRS\<close>: the key pressed, and the pair \<open>[open, close]\<close> it stands for.\<close>

definition PAIRS :: "string \<Rightarrow> (string \<times> string) option" where
  "PAIRS = map_of
     [(''('', (''('', '')'')),
      (''['', (''['', '']'')),
      (''{'', (''{'', ''}'')),
      ([CHR 0x22], ([CHR 0x22], [CHR 0x22])),
      ([CHR 0x27], ([CHR 0x27], [CHR 0x27])),
      ([CHR 0x60], ([CHR 0x60], [CHR 0x60]))]"

section \<open>The JavaScript library functions the code calls\<close>

text \<open>\<open>s.substring(a, b)\<close>: both indices are clamped to \<open>[0, length]\<close> and swapped when
  \<open>a > b\<close>; \<open>s.substring(a)\<close> runs to the end of the string.\<close>

definition substring :: "string \<Rightarrow> int \<Rightarrow> int \<Rightarrow> string" where
  "substring s a b =
     (let n = int (length s);
          a' = min (max a 0) n;
          b' = min (max b 0) n;
          lo = min a' b';
          hi = max a' b'
      in take (nat (hi - lo)) (drop (nat lo) s))"

definition substring_from :: "string \<Rightarrow> int \<Rightarrow> string" where
  "substring_from s a = substring s a (int (length s))"

text \<open>\<open>xs.slice(a, b)\<close> on an array: a negative index counts from the end, and both are
  clamped to the array.\<close>

definition slice :: "'a list \<Rightarrow> int \<Rightarrow> int \<Rightarrow> 'a list" where
  "slice xs a b =
     (let n = int (length xs);
          a' = (if a < 0 then max (n + a) 0 else min a n);
          b' = (if b < 0 then max (n + b) 0 else min b n)
      in take (nat (b' - a')) (drop (nat a') xs))"

text \<open>\<open>xs[i]\<close> on an array: \<open>undefined\<close> (here \<open>None\<close>) outside \<open>0 .. length - 1\<close>.\<close>

definition js_index :: "'a list \<Rightarrow> int \<Rightarrow> 'a option" where
  "js_index xs i = (if 0 \<le> i \<and> i < int (length xs) then Some (xs ! nat i) else None)"

definition startsWith :: "string \<Rightarrow> string \<Rightarrow> bool" where
  "startsWith s t = (take (length t) s = t)"

definition endsWith :: "string \<Rightarrow> string \<Rightarrow> bool" where
  "endsWith s t = (length t \<le> length s \<and> drop (length s - length t) s = t)"

definition repeat :: "string \<Rightarrow> nat \<Rightarrow> string" where
  "repeat s n = concat (replicate n s)"

text \<open>\<open>s.split('\n')\<close> and \<open>lines.join('\n')\<close>. Splitting never gives the empty array.\<close>

fun split_nl :: "string \<Rightarrow> string list" where
  "split_nl [] = [[]]"
| "split_nl (c # cs) =
     (if c = CHR 0x0A then [] # split_nl cs
      else (case split_nl cs of
              [] \<Rightarrow> [[c]]
            | l # ls \<Rightarrow> (c # l) # ls))"

fun join_nl :: "string list \<Rightarrow> string" where
  "join_nl [] = []"
| "join_nl [l] = l"
| "join_nl (l # ls) = l @ CHR 0x0A # join_nl ls"

text \<open>\<open>getLines\<close> of the module script.\<close>

definition getLines :: "string \<Rightarrow> int \<Rightarrow> string list" where
  "getLines text position = split_nl (substring text 0 position)"

subsection \<open>The three regular expressions\<close>

text \<open>The class \<open>[a-z0-9]\<close> under the flag \<open>i\<close>: ASCII letters and digits.\<close>

definition isAlnum :: "char \<Rightarrow> bool" where
  "isAlnum c =
     (let n = (of_char c :: nat)
      in (48 \<le> n \<and> n \<le> 57) \<or> (65 \<le> n \<and> n \<le> 90) \<or> (97 \<le> n \<and> n \<le> 122))"

text \<open>The class \<open>\s\<close>, on the code units below 256: tab, line feed, vertical tab, form feed,
  carriage return, space and no-break space.\<close>

definition isSpace :: "char \<Rightarrow> bool" where
  "isSpace c = ((of_char c :: nat) \<in> {9, 10, 11, 12, 13, 32, 160})"

text \<open>
  \<open>line.match(/[^a-z0-9]([a-z0-9]+)$/i)\<close>: the matcher tries each start position from the
  left; at a position it needs one character outside the class, then one or more
  characters of the class up to the end of the string. The result is the capture group
  \<open>[1]\<close>, or \<open>None\<close> for \<open>null\<close>.
\<close>

fun match_last_word :: "string \<Rightarrow> string option" where
  "match_last_word [] = None"
| "match_last_word (c # cs) =
     (if \<not> isAlnum c \<and> cs \<noteq> [] \<and> list_all isAlnum cs then Some cs
      else match_last_word cs)"

text \<open>\<open>line.match(/^\s+/)\<close>: the group \<open>[0]\<close>, or \<open>None\<close> for \<open>null\<close>.\<close>

definition match_leading_space :: "string \<Rightarrow> string option" where
  "match_leading_space line =
     (let m = takeWhile isSpace line in if m = [] then None else Some m)"

text \<open>\<open>/\S/.test(line)\<close>.\<close>

definition test_non_space :: "string \<Rightarrow> bool" where
  "test_non_space line = list_ex (\<lambda>c. \<not> isSpace c) line"

section \<open>The component state\<close>

record KeyboardEvent =
  key :: string
  ctrlKey :: bool
  metaKey :: bool
  shiftKey :: bool
  altKey :: bool

text \<open>The two event kinds given to \<open>dispatch\<close>.\<close>

datatype Notification = Value_change string | Keydown KeyboardEvent

text \<open>
  The platform flags of the module script and the props of the component that the key
  handler reads. \<open>tabSize\<close> is the count given to \<open>String.repeat\<close>, a natural number.
\<close>

record Env =
  isWindows :: bool
  isMacLike :: bool
  insertSpaces :: bool
  tabSize :: nat
  ignoreTabKey :: bool

text \<open>
  The mutable state of one editor instance: the variable \<open>history\<close>, the bound
  \<open>textarea\<close> element (its value and selection; the prop \<open>value\<close> is bound to the
  element's value), the flag \<open>capture\<close>, whether the element has focus, and the
  notifications dispatched so far, oldest first.
\<close>

record Editor =
  history :: History
  textarea :: Rec
  capture :: bool
  focused :: bool
  dispatched :: "Notification list"

definition init :: "Rec \<Rightarrow> Editor" where
  "init ta = \<lparr>history = \<lparr>stack = [], offset = - 1\<rparr>, textarea = ta, capture = True,
              focused = True, dispatched = []\<rparr>"

section \<open>The textarea element\<close>

text \<open>
  The code writes to the element through its three attributes \<open>value\<close>,
  \<open>selectionStart\<close> and \<open>selectionEnd\<close>. Their setters are those of the HTML standard:
  a position is an \<open>unsigned long\<close>, so an integer is taken modulo \<open>2^32\<close>; a position
  beyond the text is the end of the text; and the start of the selection never lies
  after its end.
\<close>

definition toUnsignedLong :: "int \<Rightarrow> int" where
  "toUnsignedLong x = x mod 2 ^ 32"

text \<open>The text the element keeps: every CR LF pair and every other CR becomes one LF.\<close>

fun normalizeNewlines :: "string \<Rightarrow> string" where
  "normalizeNewlines [] = []"
| "normalizeNewlines [c] = (if c = CHR 0x0D then [CHR 0x0A] else [c])"
| "normalizeNewlines (c # d # cs) =
     (if c = CHR 0x0D \<and> d = CHR 0x0A then CHR 0x0A # normalizeNewlines cs
      else if c = CHR 0x0D then CHR 0x0A # normalizeNewlines (d # cs)
      else c # normalizeNewlines (d # cs))"

text \<open>"Set the selection range" of the standard, on two positions: each is cut to the
  length of the text, and when the end is not after the start both are put at the end.\<close>

definition setSelectionRange :: "int \<Rightarrow> int \<Rightarrow> Rec \<Rightarrow> Rec" where
  "setSelectionRange start end el =
     (let n = int (length (value el));
          s = min start n;
          e = min end n
      in if e \<le> s then el\<lparr>selectionStart := e, selectionEnd := e\<rparr>
         else el\<lparr>selectionStart := s, selectionEnd := e\<rparr>)"

text \<open>\<open>textarea.value = v\<close>: when the text changes, the caret goes to its end.\<close>

definition set_value :: "string \<Rightarrow> Rec \<Rightarrow> Rec" where
  "set_value v el =
     (let new = normalizeNewlines v
      in if new \<noteq> value el
         then \<lparr>value = new, selectionStart = int (length new), selectionEnd = int (length new)\<rparr>
         else el)"

text \<open>\<open>textarea.selectionStart = x\<close>: the end is the present end, or \<open>x\<close> when that is
  larger.\<close>

definition set_selectionStart :: "int \<Rightarrow> Rec \<Rightarrow> Rec" where
  "set_selectionStart x el =
     (let v = toUnsignedLong x;
          end0 = selectionEnd el;
          end1 = (if end0 < v then v else end0)
      in setSelectionRange v end1 el)"

text \<open>\<open>textarea.selectionEnd = x\<close>: the start is the present start.\<close>

definition set_selectionEnd :: "int \<Rightarrow> Rec \<Rightarrow> Rec" where
  "set_selectionEnd x el = setSelectionRange (selectionStart el) (toUnsignedLong x) el"

section \<open>The edit history\<close>

text \<open>The first block of \<open>recordChange\<close> (lines 157-170): drop the redo entries, then cut
  the stack to the limit. The second \<open>slice\<close> is taken from the stack as it was on entry.\<close>

definition dropRedo :: "History \<Rightarrow> History" where
  "dropRedo h =
     (let stack0 = stack h; offset0 = offset h
      in if stack0 \<noteq> [] \<and> offset0 > - 1 then
           (let h1 = h\<lparr>stack := slice stack0 0 (offset0 + 1)\<rparr>;
                count = int (length (stack h1))
            in if count > HISTORY_LIMIT then
                 (let extras = count - HISTORY_LIMIT
                  in h1\<lparr>stack := slice stack0 extras count,
                        offset := max (offset h1 - extras) 0\<rparr>)
               else h1)
         else h)"

text \<open>The word test of \<open>recordChange\<close> (lines 180-189):
  \<open>previous && current?.[1]?.startsWith(previous[1])\<close>.\<close>

definition wordMerge :: "Rec \<Rightarrow> Rec \<Rightarrow> bool" where
  "wordMerge lst record =
     (let previous = match_last_word (last (getLines (value lst) (selectionStart lst)));
          current = match_last_word (last (getLines (value record) (selectionStart record)))
      in case previous of
           None \<Rightarrow> False
         | Some p \<Rightarrow> (case current of None \<Rightarrow> False | Some c \<Rightarrow> startsWith c p))"

text \<open>\<open>{ ...record, timestamp }\<close>.\<close>

definition stamp :: "Rec \<Rightarrow> int \<Rightarrow> Entry" where
  "stamp record t = Rec.extend record (Entry.fields t)"

text \<open>\<open>recordChange(record, overwrite)\<close>; \<open>now\<close> is the reading of \<open>Date.now()\<close>.\<close>

definition recordChange :: "int \<Rightarrow> Rec \<Rightarrow> bool \<Rightarrow> History \<Rightarrow> History" where
  "recordChange now record overwrite h =
     (let h1 = dropRedo h;
          timestamp = now;
          pushed = h1\<lparr>stack := stack h1 @ [stamp record timestamp], offset := offset h1 + 1\<rparr>
      in if overwrite then
           (case js_index (stack h1) (offset h1) of
              None \<Rightarrow> pushed
            | Some lst \<Rightarrow>
                if timestamp - Entry.timestamp lst < HISTORY_TIME_GAP
                   \<and> wordMerge (Rec.truncate lst) record
                then h1\<lparr>stack := (stack h1)[nat (offset h1) := stamp record timestamp]\<rparr>
                else pushed)
         else pushed)"

text \<open>\<open>updateInput\<close>: the three writes to the element in the order of the source (lines
  253-255), then the notification.\<close>

definition updateInput :: "Rec \<Rightarrow> Editor \<Rightarrow> Editor" where
  "updateInput record ed =
     ed\<lparr>textarea :=
          set_selectionEnd (selectionEnd record)
            (set_selectionStart (selectionStart record)
              (set_value (value record) (textarea ed))),
        dispatched := dispatched ed @ [Value_change (value record)]\<rparr>"

definition recordCurrentState :: "int \<Rightarrow> Editor \<Rightarrow> Editor" where
  "recordCurrentState now ed =
     ed\<lparr>history := recordChange now (textarea ed) False (history ed)\<rparr>"

definition onMount :: "int \<Rightarrow> Editor \<Rightarrow> Editor" where
  "onMount now ed = recordCurrentState now ed"

text \<open>The first block of \<open>applyEdits\<close> (lines 205-214): the entry at the offset, when
  there is one, takes the selection the element has now. The element is bound from the
  mount on, so \<open>last && textarea\<close> is decided by \<open>last\<close>.\<close>

definition backPatch :: "Editor \<Rightarrow> History" where
  "backPatch ed =
     (case js_index (stack (history ed)) (offset (history ed)) of
        None \<Rightarrow> history ed
      | Some lst \<Rightarrow>
          (history ed)\<lparr>stack := (stack (history ed))[nat (offset (history ed)) :=
             lst\<lparr>selectionStart := selectionStart (textarea ed),
                 selectionEnd := selectionEnd (textarea ed)\<rparr>]\<rparr>)"

text \<open>\<open>applyEdits\<close>: back-patch, then push the record and write it to the element.\<close>

definition applyEdits :: "int \<Rightarrow> Rec \<Rightarrow> Editor \<Rightarrow> Editor" where
  "applyEdits now record ed =
     updateInput record (ed\<lparr>history := recordChange now record False (backPatch ed)\<rparr>)"

definition undoEdit :: "Editor \<Rightarrow> Editor" where
  "undoEdit ed =
     (let stack0 = stack (history ed); offset0 = offset (history ed)
      in case js_index stack0 (offset0 - 1) of
           None \<Rightarrow> ed
         | Some record \<Rightarrow>
             (let ed1 = updateInput (Rec.truncate record) ed
              in ed1\<lparr>history := (history ed1)\<lparr>offset := max (offset0 - 1) 0\<rparr>\<rparr>))"

definition redoEdit :: "Editor \<Rightarrow> Editor" where
  "redoEdit ed =
     (let stack0 = stack (history ed); offset0 = offset (history ed)
      in case js_index stack0 (offset0 + 1) of
           None \<Rightarrow> ed
         | Some record \<Rightarrow>
             (let ed1 = updateInput (Rec.truncate record) ed
              in ed1\<lparr>history := (history ed1)\<lparr>offset := min (offset0 + 1) (int (length stack0) - 1)\<rparr>\<rparr>))"

text \<open>\<open>handleChange\<close>: the element has already changed itself; its state is recorded with
  \<open>overwrite = true\<close>.\<close>

definition handleChange :: "int \<Rightarrow> Editor \<Rightarrow> Editor" where
  "handleChange now ed =
     ed\<lparr>history := recordChange now (textarea ed) True (history ed),
        dispatched := dispatched ed @ [Value_change (value (textarea ed))]\<rparr>"

section \<open>The key handler\<close>

definition tabCharacter :: "bool \<Rightarrow> nat \<Rightarrow> string" where
  "tabCharacter insSpaces tabSz = repeat (if insSpaces then '' '' else [CHR 0x09]) tabSz"

text \<open>\<open>lines.map((line, i) => f(line, i))\<close>.\<close>

definition map_index :: "('a \<Rightarrow> int \<Rightarrow> 'b) \<Rightarrow> 'a list \<Rightarrow> 'b list" where
  "map_index f xs = map (\<lambda>(i, x). f x (int i)) (enumerate 0 xs)"

text \<open>Shift+Tab (lines 276-305). \<open>None\<close>: the text is unchanged and nothing is applied.\<close>

definition unindent :: "string \<Rightarrow> string \<Rightarrow> int \<Rightarrow> int \<Rightarrow> Rec option" where
  "unindent tabChar v selStart selEnd =
     (let linesBeforeCaret = getLines v selStart;
          startLine = int (length linesBeforeCaret) - 1;
          endLine = int (length (getLines v selEnd)) - 1;
          nextValue = join_nl (map_index
            (\<lambda>line i. if i \<ge> startLine \<and> i \<le> endLine \<and> startsWith line tabChar
                       then substring_from line (int (length tabChar)) else line)
            (split_nl v))
      in if v \<noteq> nextValue then
           (let startLineText = linesBeforeCaret ! nat startLine
            in Some \<lparr>value = nextValue,
                     selectionStart = (if startsWith startLineText tabChar
                                       then selStart - int (length tabChar) else selStart),
                     selectionEnd = selEnd - (int (length v) - int (length nextValue))\<rparr>)
         else None)"

text \<open>Tab with a selection (lines 306-331).\<close>

definition indent :: "string \<Rightarrow> string \<Rightarrow> int \<Rightarrow> int \<Rightarrow> Rec" where
  "indent tabChar v selStart selEnd =
     (let linesBeforeCaret = getLines v selStart;
          startLine = int (length linesBeforeCaret) - 1;
          endLine = int (length (getLines v selEnd)) - 1;
          startLineText = linesBeforeCaret ! nat startLine
      in \<lparr>value = join_nl (map_index
             (\<lambda>line i. if i \<ge> startLine \<and> i \<le> endLine then tabChar @ line else line)
             (split_nl v)),
          selectionStart = (if test_non_space startLineText
                            then selStart + int (length tabChar) else selStart),
          selectionEnd = selEnd + int (length tabChar) * (endLine - startLine + 1)\<rparr>)"

text \<open>Tab with no selection (lines 332-342).\<close>

definition insertTab :: "string \<Rightarrow> string \<Rightarrow> int \<Rightarrow> int \<Rightarrow> Rec" where
  "insertTab tabChar v selStart selEnd =
     (let updatedSelection = selStart + int (length tabChar)
      in \<lparr>value = substring v 0 selStart @ tabChar @ substring_from v selEnd,
          selectionStart = updatedSelection,
          selectionEnd = updatedSelection\<rparr>)"

text \<open>Backspace (lines 343-362).\<close>

definition backspace :: "string \<Rightarrow> string \<Rightarrow> int \<Rightarrow> int \<Rightarrow> Rec option" where
  "backspace tabChar v selStart selEnd =
     (let hasSelection = (selStart \<noteq> selEnd);
          textBeforeCaret = substring v 0 selStart
      in if endsWith textBeforeCaret tabChar \<and> \<not> hasSelection then
           (let updatedSelection = selStart - int (length tabChar)
            in Some \<lparr>value = substring v 0 (selStart - int (length tabChar))
                               @ substring_from v selEnd,
                     selectionStart = updatedSelection,
                     selectionEnd = updatedSelection\<rparr>)
         else None)"

text \<open>Enter (lines 363-385).\<close>

definition enter :: "string \<Rightarrow> int \<Rightarrow> int \<Rightarrow> Rec option" where
  "enter v selStart selEnd =
     (if selStart = selEnd then
        (let line = last (getLines v selStart)
         in case match_leading_space line of
              None \<Rightarrow> None
            | Some m \<Rightarrow>
                (let indnt = CHR 0x0A # m;
                     updatedSelection = selStart + int (length indnt)
                 in Some \<lparr>value = substring v 0 selStart @ indnt @ substring_from v selEnd,
                          selectionStart = updatedSelection,
                          selectionEnd = updatedSelection\<rparr>))
      else None)"

text \<open>The pair keys (lines 386-418): wrap the selection, or insert the pair at the caret.\<close>

definition pair :: "string \<Rightarrow> string \<Rightarrow> int \<Rightarrow> int \<Rightarrow> Rec option" where
  "pair k v selStart selEnd =
     (case PAIRS k of
        None \<Rightarrow> None
      | Some chars \<Rightarrow>
          if selStart \<noteq> selEnd then
            Some \<lparr>value = substring v 0 selStart @ fst chars @ substring v selStart selEnd
                            @ snd chars @ substring_from v selEnd,
                  selectionStart = selStart,
                  selectionEnd = selEnd + 2\<rparr>
          else
            Some \<lparr>value = substring v 0 selStart @ fst chars @ snd chars
                            @ substring_from v selEnd,
                  selectionStart = selStart + 1,
                  selectionEnd = selStart + 1\<rparr>)"

text \<open>The same branch in \<open>src/src/lib/Editor.svelte\<close> (lines 280-305), the older copy of
  the component: it wraps a selection and has no branch for the empty selection, where
  the key is left to the element.\<close>

definition pair_Editor :: "string \<Rightarrow> string \<Rightarrow> int \<Rightarrow> int \<Rightarrow> Rec option" where
  "pair_Editor k v selStart selEnd =
     (case PAIRS k of
        None \<Rightarrow> None
      | Some chars \<Rightarrow>
          if selStart \<noteq> selEnd then
            Some \<lparr>value = substring v 0 selStart @ fst chars @ substring v selStart selEnd
                            @ snd chars @ substring_from v selEnd,
                  selectionStart = selStart,
                  selectionEnd = selEnd + 2\<rparr>
          else None)"

text \<open>
  \<open>handleKeyDown\<close>. The first component of the result says whether
  \<open>e.preventDefault()\<close> was called.
\<close>

definition handleKeyDown :: "Env \<Rightarrow> int \<Rightarrow> KeyboardEvent \<Rightarrow> Editor \<Rightarrow> bool \<times> Editor" where
  "handleKeyDown env now e ed0 =
     (let ed = ed0\<lparr>dispatched := dispatched ed0 @ [Keydown e]\<rparr>
      in if key e = ''Escape'' then (False, ed\<lparr>focused := False\<rparr>)
         else
           (let v = value (textarea ed);
                selStart = selectionStart (textarea ed);
                selEnd = selectionEnd (textarea ed);
                tabChar = tabCharacter (insertSpaces env) (tabSize env)
            in if key e = ''Tab'' \<and> \<not> ignoreTabKey env \<and> capture ed then
                 (True,
                  if shiftKey e then
                    (case unindent tabChar v selStart selEnd of
                       None \<Rightarrow> ed
                     | Some r \<Rightarrow> applyEdits now r ed)
                  else if selStart \<noteq> selEnd then
                    applyEdits now (indent tabChar v selStart selEnd) ed
                  else applyEdits now (insertTab tabChar v selStart selEnd) ed)
               else if key e = ''Backspace'' then
                 (case backspace tabChar v selStart selEnd of
                    None \<Rightarrow> (False, ed)
                  | Some r \<Rightarrow> (True, applyEdits now r ed))
               else if key e = ''Enter'' then
                 (case enter v selStart selEnd of
                    None \<Rightarrow> (False, ed)
                  | Some r \<Rightarrow> (True, applyEdits now r ed))
               else if key e \<in> set [''('', ''['', ''{'', [CHR 0x22], [CHR 0x27], [CHR 0x60]] then
                 (case pair (key e) v selStart selEnd of
                    None \<Rightarrow> (False, ed)
                  | Some r \<Rightarrow> (True, applyEdits now r ed))
               else if (if isMacLike env then metaKey e \<and> key e = ''z''
                        else ctrlKey e \<and> key e = ''z'')
                       \<and> \<not> shiftKey e \<and> \<not> altKey e then
                 (True, undoEdit ed)
               else if (if isMacLike env then metaKey e \<and> key e = ''z'' \<and> shiftKey e
                        else if isWindows env then ctrlKey e \<and> key e = ''y''
                        else ctrlKey e \<and> key e = ''z'' \<and> shiftKey e)
                       \<and> \<not> altKey e then
                 (True, redoEdit ed)
               else if key e = ''m'' \<and> ctrlKey e \<and> (if isMacLike env then shiftKey e else True) then
                 (True, ed\<lparr>capture := \<not> capture ed\<rparr>)
               else (False, ed)))"

section \<open>Sequences of events\<close>

text \<open>The user moves the caret or the selection in the element; no handler runs. The
  move is the element's \<open>setSelectionRange(s, e)\<close>, so the selection it leaves is inside
  the text whatever \<open>s\<close> and \<open>e\<close> are.\<close>

definition select :: "int \<Rightarrow> int \<Rightarrow> Editor \<Rightarrow> Editor" where
  "select s e ed =
     ed\<lparr>textarea := setSelectionRange (toUnsignedLong s) (toUnsignedLong e) (textarea ed)\<rparr>"

text \<open>A native change: the element changes its own text and selection to \<open>r\<close> and then
  raises the change event.\<close>

definition nativeChange :: "int \<Rightarrow> Rec \<Rightarrow> Editor \<Rightarrow> Editor" where
  "nativeChange now r ed = handleChange now (ed\<lparr>textarea := r\<rparr>)"

text \<open>What can happen to an editor: the mount, a move of the selection, a key event, a native
  change, and the direct calls of \<open>applyEdits\<close>, \<open>recordChange\<close>, \<open>undoEdit\<close> and
  \<open>redoEdit\<close>. Each carries the clock reading it sees.\<close>

datatype Action =
    Mount int
  | Select int int
  | Key Env int KeyboardEvent
  | Native int Rec
  | Edit int Rec
  | Record int Rec bool
  | Undo
  | Redo

fun exec :: "Action \<Rightarrow> Editor \<Rightarrow> Editor" where
  "exec (Mount t) ed = onMount t ed"
| "exec (Select s e) ed = select s e ed"
| "exec (Key env t e) ed = snd (handleKeyDown env t e ed)"
| "exec (Native t r) ed = nativeChange t r ed"
| "exec (Edit t r) ed = applyEdits t r ed"
| "exec (Record t r ow) ed = ed\<lparr>history := recordChange t r ow (history ed)\<rparr>"
| "exec Undo ed = undoEdit ed"
| "exec Redo ed = redoEdit ed"

definition run :: "Action list \<Rightarrow> Editor \<Rightarrow> Editor" where
  "run acts ed = foldl (\<lambda>s a. exec a s) ed acts"

text \<open>The bounds that every reachable history keeps: at most \<open>HISTORY_LIMIT + 1\<close> entries,
  and an offset that is \<open>-1\<close> on the empty stack and an index of the stack otherwise.\<close>

definition hist_inv :: "History \<Rightarrow> bool" where
  "hist_inv h \<longleftrightarrow>
     int (length (stack h)) \<le> HISTORY_LIMIT + 1 \<and>
     ((stack h = [] \<and> offset h = - 1) \<or> (0 \<le> offset h \<and> offset h < int (length (stack h))))"

section \<open>The properties claimed\<close>

text \<open>The invariant of a record: the selection lies within the text, start before end.\<close>

definition rec_inv :: "Rec \<Rightarrow> bool" where
  "rec_inv r \<longleftrightarrow>
     0 \<le> selectionStart r \<and> selectionStart r \<le> selectionEnd r
     \<and> selectionEnd r \<le> int (length (value r))"

text \<open>A text the element can hold: its line breaks are LF and every position in it is an
  \<open>unsigned long\<close>. A state the element can be in: such a text with a selection inside
  it.\<close>

definition element_text :: "string \<Rightarrow> bool" where
  "element_text v \<longleftrightarrow> int (length v) < 2 ^ 32 \<and> CHR 0x0D \<notin> set v"

definition element_state :: "Rec \<Rightarrow> bool" where
  "element_state r \<longleftrightarrow> element_text (value r) \<and> rec_inv r"

text \<open>What the element holds once a record has been written to it by \<open>updateInput\<close>.\<close>

definition shown :: "Rec \<Rightarrow> Rec" where
  "shown r =
     (let v = normalizeNewlines (value r);
          n = int (length v);
          s = min (toUnsignedLong (selectionStart r)) n;
          e = min (toUnsignedLong (selectionEnd r)) n
      in \<lparr>value = v, selectionStart = (if e \<le> s then e else s), selectionEnd = e\<rparr>)"

text \<open>A chain of native changes in which every change comes less than
  \<open>HISTORY_TIME_GAP\<close> after the entry before it and passes the word test against it. The
  first change is measured against the entry \<open>lst\<close>, each later one against the change
  before it, stamped with its own time.\<close>

fun coalescing :: "Entry \<Rightarrow> (int \<times> Rec) list \<Rightarrow> bool" where
  "coalescing lst [] = True"
| "coalescing lst ((t, r) # cs) =
     (t - timestamp lst < HISTORY_TIME_GAP \<and> wordMerge (Rec.truncate lst) r
      \<and> coalescing (stamp r t) cs)"

text \<open>The events of such a chain, and of a sequence of structural edits: before each edit
  the user may have moved the selection to \<open>(s, e)\<close>.\<close>

definition natives :: "(int \<times> Rec) list \<Rightarrow> Action list" where
  "natives cs = map (\<lambda>(t, r). Native t r) cs"

definition edits :: "(int \<times> int \<times> int \<times> Rec) list \<Rightarrow> Action list" where
  "edits steps = concat (map (\<lambda>(s, e, t, r). [Select s e, Edit t r]) steps)"

text \<open>The editor after the mount at time \<open>t0\<close> on the element state \<open>ta\<close> and a sequence
  of structural edits.\<close>

definition afterEdits :: "Rec \<Rightarrow> int \<Rightarrow> (int \<times> int \<times> int \<times> Rec) list \<Rightarrow> Editor" where
  "afterEdits ta t0 steps = run (edits steps) (onMount t0 (init ta))"

text \<open>The offset is an index of the stack and the element shows the entry there.\<close>

definition pointed :: "Editor \<Rightarrow> bool" where
  "pointed ed \<longleftrightarrow>
     0 \<le> offset (history ed) \<and> offset (history ed) < int (length (stack (history ed)))
     \<and> textarea ed = shown (Rec.truncate (stack (history ed) ! nat (offset (history ed))))"

section \<open>Library functions: basic facts\<close>

lemma split_nl_not_Nil [simp]: "split_nl s \<noteq> []"
  by (induction s) (auto split: list.splits)

lemma getLines_not_Nil [simp]: "getLines v p \<noteq> []"
  by (simp add: getLines_def)

lemma js_index_Some_iff:
  "js_index xs i = Some x \<longleftrightarrow> 0 \<le> i \<and> i < int (length xs) \<and> xs ! nat i = x"
  by (auto simp: js_index_def)

lemma js_index_None_iff: "js_index xs i = None \<longleftrightarrow> i < 0 \<or> int (length xs) \<le> i"
  by (auto simp: js_index_def)

lemma js_index_in_range: "0 \<le> i \<Longrightarrow> i < int (length xs) \<Longrightarrow> js_index xs i = Some (xs ! nat i)"
  by (simp add: js_index_def)

lemma slice_from_0: "0 \<le> b \<Longrightarrow> slice xs 0 b = take (nat b) xs"
  by (auto simp: slice_def Let_def min_def)

lemma slice_nonneg: "0 \<le> a \<Longrightarrow> a \<le> b \<Longrightarrow> b \<le> int (length xs) \<Longrightarrow>
    slice xs a b = drop (nat a) (take (nat b) xs)"
  by (auto simp: slice_def Let_def min_def drop_take nat_diff_distrib)

section \<open>The history keeps its bounds\<close>

lemma dropRedo_outside: "stack h = [] \<or> offset h \<le> - 1 \<Longrightarrow> dropRedo h = h"
  by (auto simp: dropRedo_def Let_def)

lemma dropRedo_stack:
  assumes "0 \<le> offset h" "offset h < int (length (stack h))"
  shows "stack (dropRedo h) = drop (nat (offset h + 1) - 100) (take (nat (offset h + 1)) (stack h))"
proof -
  have ne: "stack h \<noteq> []" using assms by auto
  have len: "int (length (take (nat (offset h + 1)) (stack h))) = offset h + 1"
    using assms by auto
  show ?thesis
  proof (cases "offset h + 1 > 100")
    case True
    then have "slice (stack h) (offset h + 1 - 100) (offset h + 1)
        = drop (nat (offset h + 1 - 100)) (take (nat (offset h + 1)) (stack h))"
      using assms by (intro slice_nonneg) auto
    moreover have "nat (offset h + 1 - 100) = nat (offset h + 1) - 100"
      using True by auto
    ultimately show ?thesis
      using True ne assms len
      by (simp add: dropRedo_def Let_def HISTORY_LIMIT_def slice_from_0)
  next
    case False
    then show ?thesis
      using ne assms len
      by (auto simp: dropRedo_def Let_def HISTORY_LIMIT_def slice_from_0)
  qed
qed

lemma dropRedo_offset:
  assumes "0 \<le> offset h" "offset h < int (length (stack h))"
  shows "offset (dropRedo h) = min (offset h) 99"
proof -
  have ne: "stack h \<noteq> []" using assms by auto
  have len: "int (length (take (nat (offset h + 1)) (stack h))) = offset h + 1"
    using assms by auto
  show ?thesis
    using ne assms len
    by (auto simp: dropRedo_def Let_def HISTORY_LIMIT_def slice_from_0)
qed

lemma dropRedo_length:
  assumes "0 \<le> offset h" "offset h < int (length (stack h))"
  shows "int (length (stack (dropRedo h))) = offset (dropRedo h) + 1"
  using assms by (simp add: dropRedo_stack dropRedo_offset)

lemma dropRedo_last:
  assumes "0 \<le> offset h" "offset h < int (length (stack h))"
  shows "stack (dropRedo h) ! nat (offset (dropRedo h)) = stack h ! nat (offset h)"
proof -
  have "nat (offset h + 1) - 100 + nat (min (offset h) 99) = nat (offset h)"
    using assms by auto
  moreover have "nat (offset h) < nat (offset h + 1)" using assms by auto
  ultimately show ?thesis
    using assms by (simp add: dropRedo_stack dropRedo_offset)
qed

lemma dropRedo_top:
  assumes "0 \<le> offset h" "offset h < int (length (stack h))"
  shows "js_index (stack (dropRedo h)) (offset (dropRedo h)) = Some (stack h ! nat (offset h))"
  using assms dropRedo_length [OF assms] dropRedo_last [OF assms] dropRedo_offset [OF assms]
  by (simp add: js_index_def)

lemma recordChange_push:
  "recordChange t r False h =
     (dropRedo h)\<lparr>stack := stack (dropRedo h) @ [stamp r t], offset := offset (dropRedo h) + 1\<rparr>"
  by (simp add: recordChange_def Let_def)

lemma recordChange_cases:
  "recordChange t r ow h =
     (dropRedo h)\<lparr>stack := stack (dropRedo h) @ [stamp r t], offset := offset (dropRedo h) + 1\<rparr>
   \<or> (js_index (stack (dropRedo h)) (offset (dropRedo h)) \<noteq> None \<and>
      recordChange t r ow h =
        (dropRedo h)\<lparr>stack := (stack (dropRedo h))[nat (offset (dropRedo h)) := stamp r t]\<rparr>)"
  by (auto simp: recordChange_def Let_def split: option.splits)

lemma hist_inv_recordChange:
  assumes "hist_inv h"
  shows "hist_inv (recordChange t r ow h)"
proof (cases "stack h = []")
  case True
  then have "dropRedo h = h" by (simp add: dropRedo_outside)
  then show ?thesis
    using assms True
    by (auto simp: recordChange_def Let_def hist_inv_def js_index_def HISTORY_LIMIT_def)
next
  case False
  then have b: "0 \<le> offset h" "offset h < int (length (stack h))"
    using assms by (auto simp: hist_inv_def)
  note l = dropRedo_length [OF b] and o = dropRedo_offset [OF b]
  from recordChange_cases [of t r ow h] show ?thesis
    using l o b by (auto simp: hist_inv_def HISTORY_LIMIT_def)
qed

lemma run_Nil [simp]: "run [] ed = ed"
  by (simp add: run_def)

lemma run_Cons [simp]: "run (a # acts) ed = run acts (exec a ed)"
  by (simp add: run_def)

lemma run_append [simp]: "run (as @ bs) ed = run bs (run as ed)"
  by (simp add: run_def)

lemma updateInput_history [simp]: "history (updateInput r ed) = history ed"
  by (simp add: updateInput_def)

lemma toUnsignedLong_nonneg [simp]: "0 \<le> toUnsignedLong x"
  by (simp add: toUnsignedLong_def)

lemma toUnsignedLong_id: "0 \<le> x \<Longrightarrow> x < 2 ^ 32 \<Longrightarrow> toUnsignedLong x = x"
  by (simp add: toUnsignedLong_def)

lemma normalizeNewlines_id: "CHR 0x0D \<notin> set v \<Longrightarrow> normalizeNewlines v = v"
  by (induction v rule: normalizeNewlines.induct) auto

lemma setSelectionRange_value [simp]: "value (setSelectionRange a b el) = value el"
  by (simp add: setSelectionRange_def Let_def)

lemma rec_inv_setSelectionRange:
  "0 \<le> a \<Longrightarrow> 0 \<le> b \<Longrightarrow> rec_inv (setSelectionRange a b el)"
  by (auto simp: setSelectionRange_def rec_inv_def Let_def min_def)

text \<open>The three writes of \<open>updateInput\<close> leave a state that depends on the record alone.\<close>

lemma written_shown:
  "set_selectionEnd (selectionEnd r) (set_selectionStart (selectionStart r) (set_value (value r) el))
     = shown r"
proof -
  let ?v = "normalizeNewlines (value r)"
  let ?n = "int (length ?v)"
  let ?u = "toUnsignedLong (selectionStart r)"
  let ?w = "toUnsignedLong (selectionEnd r)"
  let ?el1 = "set_value (value r) el"
  have v1: "value ?el1 = ?v" by (simp add: set_value_def Let_def)
  let ?el2 = "set_selectionStart (selectionStart r) ?el1"
  have "0 \<le> ?u" by simp
  then have el2: "value ?el2 = ?v" "selectionStart ?el2 = min ?u ?n"
    using v1 by (auto simp: set_selectionStart_def setSelectionRange_def Let_def min_def)
  have "0 \<le> ?w" by simp
  then show ?thesis
    using el2
    by (cases ?el2) (auto simp: set_selectionEnd_def setSelectionRange_def shown_def Let_def min_def)
qed

lemma updateInput_textarea [simp]: "textarea (updateInput r ed) = shown r"
  by (simp add: updateInput_def written_shown)

lemma shown_id: "element_state r \<Longrightarrow> shown r = r"
  by (cases r)
     (auto simp: element_state_def element_text_def rec_inv_def shown_def Let_def
        normalizeNewlines_id toUnsignedLong_id min_def)

lemma shown_value: "element_text (value r) \<Longrightarrow> value (shown r) = value r"
  by (simp add: shown_def Let_def normalizeNewlines_id element_text_def)

lemma undoEdit_None:
  "js_index (stack (history ed)) (offset (history ed) - 1) = None \<Longrightarrow> undoEdit ed = ed"
  by (simp add: undoEdit_def Let_def)

lemma undoEdit_Some:
  "js_index (stack (history ed)) (offset (history ed) - 1) = Some r \<Longrightarrow>
   undoEdit ed = (updateInput (Rec.truncate r) ed)
                   \<lparr>history := (history ed)\<lparr>offset := max (offset (history ed) - 1) 0\<rparr>\<rparr>"
  by (simp add: undoEdit_def Let_def)

lemma redoEdit_None:
  "js_index (stack (history ed)) (offset (history ed) + 1) = None \<Longrightarrow> redoEdit ed = ed"
  by (simp add: redoEdit_def Let_def)

lemma redoEdit_Some:
  "js_index (stack (history ed)) (offset (history ed) + 1) = Some r \<Longrightarrow>
   redoEdit ed = (updateInput (Rec.truncate r) ed)
                   \<lparr>history := (history ed)\<lparr>offset :=
                      min (offset (history ed) + 1) (int (length (stack (history ed))) - 1)\<rparr>\<rparr>"
  by (simp add: redoEdit_def Let_def)

lemma hist_inv_undoEdit: "hist_inv (history ed) \<Longrightarrow> hist_inv (history (undoEdit ed))"
  by (cases "js_index (stack (history ed)) (offset (history ed) - 1)")
     (auto simp: undoEdit_None undoEdit_Some hist_inv_def js_index_Some_iff)

lemma hist_inv_redoEdit: "hist_inv (history ed) \<Longrightarrow> hist_inv (history (redoEdit ed))"
  by (cases "js_index (stack (history ed)) (offset (history ed) + 1)")
     (auto simp: redoEdit_None redoEdit_Some hist_inv_def js_index_Some_iff)

lemma backPatch_offset [simp]: "offset (backPatch ed) = offset (history ed)"
  by (simp add: backPatch_def split: option.splits)

lemma backPatch_length [simp]: "length (stack (backPatch ed)) = length (stack (history ed))"
  by (simp add: backPatch_def split: option.splits)

lemma backPatch_Nil [simp]: "stack (backPatch ed) = [] \<longleftrightarrow> stack (history ed) = []"
  using backPatch_length [of ed] by (simp only: length_0_conv [symmetric])

lemma hist_inv_backPatch: "hist_inv (history ed) \<Longrightarrow> hist_inv (backPatch ed)"
  by (simp add: hist_inv_def)

lemma hist_inv_applyEdits: "hist_inv (history ed) \<Longrightarrow> hist_inv (history (applyEdits t r ed))"
  by (simp add: applyEdits_def hist_inv_recordChange hist_inv_backPatch)

lemma hist_inv_handleChange: "hist_inv (history ed) \<Longrightarrow> hist_inv (history (handleChange t ed))"
  by (simp add: handleChange_def hist_inv_recordChange)

text \<open>The key handler, branch by branch of its \<open>if\<close> chain: after the key-down
  notification it leaves the editor as it is, takes the focus away, toggles \<open>capture\<close>,
  undoes, redoes, or applies one structural edit through \<open>applyEdits\<close>.\<close>

lemma handleKeyDown_effect:
  assumes "P (ed\<lparr>dispatched := dispatched ed @ [Keydown e]\<rparr>)"
    and "P (ed\<lparr>dispatched := dispatched ed @ [Keydown e], focused := False\<rparr>)"
    and "P (ed\<lparr>dispatched := dispatched ed @ [Keydown e], capture := \<not> capture ed\<rparr>)"
    and "P (undoEdit (ed\<lparr>dispatched := dispatched ed @ [Keydown e]\<rparr>))"
    and "P (redoEdit (ed\<lparr>dispatched := dispatched ed @ [Keydown e]\<rparr>))"
    and "\<And>r. P (applyEdits t r (ed\<lparr>dispatched := dispatched ed @ [Keydown e]\<rparr>))"
  shows "P (snd (handleKeyDown env t e ed))"
proof -
  consider (esc) "key e = ''Escape''"
    | (tab) "key e = ''Tab''" "\<not> ignoreTabKey env" "capture ed"
    | (tabi) "key e = ''Tab''" "ignoreTabKey env"
    | (tabc) "key e = ''Tab''" "\<not> capture ed"
    | (bsp) "key e = ''Backspace''"
    | (ent) "key e = ''Enter''"
    | (par) "key e \<in> set [''('', ''['', ''{'', [CHR 0x22], [CHR 0x27], [CHR 0x60]]"
    | (oth) "key e \<noteq> ''Escape''" "key e \<noteq> ''Tab''"
        "key e \<noteq> ''Backspace''" "key e \<noteq> ''Enter''"
        "key e \<notin> set [''('', ''['', ''{'', [CHR 0x22], [CHR 0x27], [CHR 0x60]]"
    by blast
  then show ?thesis
  proof cases
    case esc
    then show ?thesis using assms by (simp add: handleKeyDown_def Let_def)
  next
    case tab
    then show ?thesis using assms
      by (simp add: handleKeyDown_def Let_def split: option.split)
  next
    case tabi
    then show ?thesis using assms by (simp add: handleKeyDown_def Let_def)
  next
    case tabc
    then show ?thesis using assms by (simp add: handleKeyDown_def Let_def)
  next
    case bsp
    then show ?thesis using assms
      by (simp add: handleKeyDown_def Let_def split: option.split)
  next
    case ent
    then show ?thesis using assms
      by (simp add: handleKeyDown_def Let_def split: option.split)
  next
    case par
    then show ?thesis using assms
      by (auto simp add: handleKeyDown_def Let_def split: option.split)
  next
    case oth
    then show ?thesis using assms
      by (simp add: handleKeyDown_def Let_def)
  qed
qed

lemma hist_inv_handleKeyDown:
  assumes "hist_inv (history ed)"
  shows "hist_inv (history (snd (handleKeyDown env t e ed)))"
proof (rule handleKeyDown_effect)
  let ?ed = "ed\<lparr>dispatched := dispatched ed @ [Keydown e]\<rparr>"
  have h: "hist_inv (history ?ed)" using assms by simp
  show "hist_inv (history ?ed)" by (rule h)
  show "hist_inv (history (ed\<lparr>dispatched := dispatched ed @ [Keydown e], focused := False\<rparr>))"
    using assms by simp
  show "hist_inv (history (ed\<lparr>dispatched := dispatched ed @ [Keydown e], capture := \<not> capture ed\<rparr>))"
    using assms by simp
  show "hist_inv (history (undoEdit ?ed))" by (rule hist_inv_undoEdit [OF h])
  show "hist_inv (history (redoEdit ?ed))" by (rule hist_inv_redoEdit [OF h])
  show "hist_inv (history (applyEdits t r ?ed))" for r by (rule hist_inv_applyEdits [OF h])
qed

lemma hist_inv_exec: "hist_inv (history ed) \<Longrightarrow> hist_inv (history (exec a ed))"
  by (cases a)
     (simp_all add: onMount_def recordCurrentState_def select_def nativeChange_def
        hist_inv_recordChange hist_inv_handleKeyDown hist_inv_handleChange
        hist_inv_applyEdits hist_inv_undoEdit hist_inv_redoEdit)

lemma hist_inv_init: "hist_inv (history (init ta))"
  by (simp add: init_def hist_inv_def HISTORY_LIMIT_def)

lemma hist_inv_run: "hist_inv (history ed) \<Longrightarrow> hist_inv (history (run acts ed))"
  by (induction acts arbitrary: ed) (simp_all add: hist_inv_exec)

text \<open>Every history reachable from the empty one has at most 101 entries and an offset
  within its bounds.\<close>

lemma hist_inv_reachable: "hist_inv (history (run acts (init ta)))"
  by (simp add: hist_inv_run hist_inv_init)

lemma applyEdits_at_tail:
  assumes "hist_inv (history ed)"
  shows "offset (history (applyEdits t r ed))
           = int (length (stack (history (applyEdits t r ed)))) - 1"
proof (cases "stack (history ed) = []")
  case True
  then have "offset (history ed) = - 1" using assms by (auto simp: hist_inv_def)
  then show ?thesis using True
    by (simp add: applyEdits_def recordChange_push dropRedo_outside)
next
  case False
  then have "0 \<le> offset (backPatch ed)" "offset (backPatch ed) < int (length (stack (backPatch ed)))"
    using assms by (auto simp: hist_inv_def)
  from dropRedo_length [OF this] show ?thesis
    by (simp add: applyEdits_def recordChange_push)
qed

lemma records_grow:
  "n \<le> 101 \<Longrightarrow>
   history (run (replicate n (Record t r False)) (init ta))
     = \<lparr>stack = replicate n (stamp r t), offset = int n - 1\<rparr>"
proof (induction n)
  case 0
  then show ?case by (simp add: init_def)
next
  case (Suc n)
  let ?h = "\<lparr>stack = replicate n (stamp r t), offset = int n - 1\<rparr>"
  have rep: "replicate (Suc n) (Record t r False)
               = replicate n (Record t r False) @ [Record t r False]"
    by (simp add: replicate_append_same)
  have run: "history (run (replicate (Suc n) (Record t r False)) (init ta))
               = recordChange t r False ?h"
    unfolding rep run_append using Suc by simp
  show ?case
  proof (cases "n = 0")
    case True
    then show ?thesis unfolding run by (simp add: recordChange_push dropRedo_outside)
  next
    case False
    then have b: "0 \<le> offset ?h" "offset ?h < int (length (stack ?h))" by auto
    have "dropRedo ?h = ?h"
      using Suc.prems False dropRedo_stack [OF b] dropRedo_offset [OF b]
      by (intro History.equality) (auto simp: min_def)
    then show ?thesis unfolding run
      by (simp add: recordChange_push replicate_append_same)
  qed
qed

section \<open>The history invariant (C1)\<close>

text \<open>
  C1. The claim bounds the stack of every reachable history by \<open>HISTORY_LIMIT = 100\<close>.
  \<open>recordChange\<close> cuts the stack to 100 entries before it pushes, not after: from the
  empty history, 101 calls of \<open>recordChange(record, false)\<close> leave 101 entries on the
  stack, above the limit, with the offset at 100.
\<close>

theorem history_limit_exceeded:
  "length (stack (history (run (replicate 101 (Record t r False)) (init ta)))) = 101
   \<and> offset (history (run (replicate 101 (Record t r False)) (init ta))) = 100
   \<and> \<not> int (length (stack (history (run (replicate 101 (Record t r False)) (init ta)))))
         \<le> HISTORY_LIMIT"
  by (simp add: records_grow HISTORY_LIMIT_def)

section \<open>Undo and redo at the ends of the stack (C9)\<close>

text \<open>
  C9. \<open>undoEdit\<close> at offset 0 or on an empty stack, and \<open>redoEdit\<close> at the last index of
  the stack, return the editor as it was: the same stack, offset, text and selection of
  the element, and the same list of dispatched notifications, so that no value-change
  notification is sent.
\<close>

theorem undo_redo_at_bounds_noop:
  "(offset (history ed) = 0 \<or> stack (history ed) = [] \<longrightarrow> undoEdit ed = ed) \<and>
   (offset (history ed) = int (length (stack (history ed))) - 1 \<longrightarrow> redoEdit ed = ed)"
  by (simp add: undoEdit_None redoEdit_None js_index_def)

theorem undo_redo_at_bounds_noop_witness:
  "offset (history (onMount 0 (init \<lparr>value = ''a'', selectionStart = 0, selectionEnd = 0\<rparr>))) = 0
   \<and> offset (history (onMount 0 (init \<lparr>value = ''a'', selectionStart = 0, selectionEnd = 0\<rparr>)))
       = int (length (stack (history (onMount 0
           (init \<lparr>value = ''a'', selectionStart = 0, selectionEnd = 0\<rparr>))))) - 1
   \<and> undoEdit (onMount 0 (init \<lparr>value = ''a'', selectionStart = 0, selectionEnd = 0\<rparr>))
       = onMount 0 (init \<lparr>value = ''a'', selectionStart = 0, selectionEnd = 0\<rparr>)
   \<and> redoEdit (onMount 0 (init \<lparr>value = ''a'', selectionStart = 0, selectionEnd = 0\<rparr>))
       = onMount 0 (init \<lparr>value = ''a'', selectionStart = 0, selectionEnd = 0\<rparr>)"
proof -
  let ?ed = "onMount 0 (init \<lparr>value = ''a'', selectionStart = 0, selectionEnd = 0\<rparr>)"
  have h: "history ?ed = \<lparr>stack = [stamp \<lparr>value = ''a'', selectionStart = 0, selectionEnd = 0\<rparr> 0],
                          offset = 0\<rparr>"
    by (simp add: onMount_def recordCurrentState_def init_def recordChange_push dropRedo_outside)
  show ?thesis
    using undo_redo_at_bounds_noop [of ?ed] by (simp add: h)
qed

section \<open>A new edit after an undo discards the redo branch (C5)\<close>

text \<open>
  C5. In every state the editor can reach, after \<open>undoEdit\<close> and then a structural edit
  (\<open>applyEdits\<close>, which records with \<open>overwrite = false\<close>), \<open>redoEdit\<close> changes nothing:
  the edit has left the offset on the last entry of the stack.
\<close>

theorem redo_after_new_edit_noop:
  "redoEdit (applyEdits t r (undoEdit (run acts (init ta)))) =
   applyEdits t r (undoEdit (run acts (init ta)))"
proof -
  have "hist_inv (history (undoEdit (run acts (init ta))))"
    by (simp add: hist_inv_undoEdit hist_inv_reachable)
  from applyEdits_at_tail [OF this] show ?thesis
    by (simp add: redoEdit_None js_index_def)
qed

section \<open>The key handler, branch by branch\<close>

lemma applyEdits_textarea [simp]: "textarea (applyEdits t r ed) = shown r"
  by (simp add: applyEdits_def)

lemma applyEdits_capture [simp]: "capture (applyEdits t r ed) = capture ed"
  by (simp add: applyEdits_def updateInput_def)

lemma handleKeyDown_Tab:
  assumes "key e = ''Tab''" "\<not> ignoreTabKey env" "capture ed"
  shows "handleKeyDown env now e ed =
     (True,
      if shiftKey e then
        (case unindent (tabCharacter (insertSpaces env) (tabSize env)) (value (textarea ed))
                (selectionStart (textarea ed)) (selectionEnd (textarea ed)) of
           None \<Rightarrow> ed\<lparr>dispatched := dispatched ed @ [Keydown e]\<rparr>
         | Some r \<Rightarrow> applyEdits now r (ed\<lparr>dispatched := dispatched ed @ [Keydown e]\<rparr>))
      else if selectionStart (textarea ed) \<noteq> selectionEnd (textarea ed) then
        applyEdits now (indent (tabCharacter (insertSpaces env) (tabSize env)) (value (textarea ed))
                (selectionStart (textarea ed)) (selectionEnd (textarea ed)))
          (ed\<lparr>dispatched := dispatched ed @ [Keydown e]\<rparr>)
      else applyEdits now (insertTab (tabCharacter (insertSpaces env) (tabSize env))
                (value (textarea ed)) (selectionStart (textarea ed)) (selectionEnd (textarea ed)))
          (ed\<lparr>dispatched := dispatched ed @ [Keydown e]\<rparr>))"
  using assms by (simp add: handleKeyDown_def Let_def)

lemma handleKeyDown_pair:
  assumes "key e \<in> set [''('', ''['', ''{'', [CHR 0x22], [CHR 0x27], [CHR 0x60]]"
  shows "handleKeyDown env now e ed =
     (case pair (key e) (value (textarea ed)) (selectionStart (textarea ed))
             (selectionEnd (textarea ed)) of
        None \<Rightarrow> (False, ed\<lparr>dispatched := dispatched ed @ [Keydown e]\<rparr>)
      | Some r \<Rightarrow> (True, applyEdits now r (ed\<lparr>dispatched := dispatched ed @ [Keydown e]\<rparr>)))"
  using assms by (auto simp add: handleKeyDown_def Let_def)

lemma substring_0: "substring v 0 s = take (nat s) v"
  by (auto simp: substring_def Let_def min_def max_def)

lemma substring_from_eq: "substring_from v s = drop (nat s) v"
  by (auto simp: substring_from_def substring_def Let_def min_def max_def)

section \<open>The tab character (C6)\<close>

text \<open>
  C6, as amended. When \<open>insertSpaces\<close> is false, \<open>tabCharacter\<close> is the tab character
  repeated \<open>tabSize\<close> times, a string of length \<open>tabSize\<close>; it is a single tab character
  only for \<open>tabSize = 1\<close>.
\<close>

theorem tabCharacter_tabs:
  "tabCharacter False tabSz = replicate tabSz (CHR 0x09)
   \<and> length (tabCharacter False tabSz) = tabSz"
proof -
  have "tabCharacter False tabSz = replicate tabSz (CHR 0x09)"
    by (induction tabSz) (simp_all add: tabCharacter_def repeat_def)
  then show ?thesis by simp
qed

text \<open>C6 as stated fails at \<open>tabSize = 2\<close>: \<open>tabCharacter\<close> is then two tab characters.\<close>

theorem tabCharacter_two_tabs:
  "(1::nat) \<le> 2 \<and> tabCharacter False 2 = [CHR 0x09, CHR 0x09] \<and> tabCharacter False 2 \<noteq> [CHR 0x09]"
  by (simp add: tabCharacter_def repeat_def numeral_2_eq_2)

section \<open>Inserting a pair at the caret (C8)\<close>

text \<open>
  C8. For every text and every empty selection (caret at \<open>s\<close>), a key event with one of the
  keys \<open>( [ { " ' `\<close> calls \<open>preventDefault\<close> and applies the edit that puts the open and
  the close character at the caret and puts the collapsed caret between them, at
  \<open>s + 1\<close>. Modifier keys, platform and props do not matter. The element then holds
  this text and caret, the record being a state an element can be in (the caret was
  inside the text).
\<close>

theorem insert_pair_at_caret:
  assumes "(key e, opn, cls) \<in> set [(''('', CHR ''('', CHR '')''), (''['', CHR ''['', CHR '']''),
              (''{'', CHR ''{'', CHR ''}''), ([CHR 0x22], CHR 0x22, CHR 0x22),
              ([CHR 0x27], CHR 0x27, CHR 0x27), ([CHR 0x60], CHR 0x60, CHR 0x60)]"
    and "textarea ed = \<lparr>value = v, selectionStart = s, selectionEnd = s\<rparr>"
  shows "handleKeyDown env now e ed =
           (True, applyEdits now
              \<lparr>value = take (nat s) v @ [opn, cls] @ drop (nat s) v,
               selectionStart = s + 1, selectionEnd = s + 1\<rparr>
              (ed\<lparr>dispatched := dispatched ed @ [Keydown e]\<rparr>))
         \<and> (element_state \<lparr>value = take (nat s) v @ [opn, cls] @ drop (nat s) v,
               selectionStart = s + 1, selectionEnd = s + 1\<rparr> \<longrightarrow>
            textarea (snd (handleKeyDown env now e ed)) =
              \<lparr>value = take (nat s) v @ [opn, cls] @ drop (nat s) v,
               selectionStart = s + 1, selectionEnd = s + 1\<rparr>)"
proof -
  from assms(1) have k: "key e \<in> set [''('', ''['', ''{'', [CHR 0x22], [CHR 0x27], [CHR 0x60]]"
    by auto
  from assms(1) have p: "pair (key e) v s s =
      Some \<lparr>value = take (nat s) v @ [opn, cls] @ drop (nat s) v,
               selectionStart = s + 1, selectionEnd = s + 1\<rparr>"
    by (auto simp: pair_def PAIRS_def substring_0 substring_from_eq)
  show ?thesis
    by (simp add: handleKeyDown_pair [OF k] assms(2) p shown_id)
qed

text \<open>The older copy of the handler wraps as this one does and inserts nothing at a
  caret.\<close>

lemma pair_Editor_wraps: "selStart \<noteq> selEnd \<Longrightarrow> pair_Editor k v selStart selEnd = pair k v selStart selEnd"
  by (simp add: pair_Editor_def pair_def split: option.splits)

lemma pair_Editor_no_insert: "pair_Editor k v s s = None"
  by (simp add: pair_Editor_def split: option.splits)

text \<open>The example of C8: the text \<open>x\<close> with the caret at 1 and the key \<open>'\<close>.\<close>

theorem insert_pair_at_caret_witness:
  "element_state \<lparr>value = [CHR ''x'', CHR 0x27, CHR 0x27], selectionStart = 2, selectionEnd = 2\<rparr>
   \<and> textarea (snd (handleKeyDown
       \<lparr>isWindows = False, isMacLike = False, insertSpaces = True, tabSize = 2, ignoreTabKey = False\<rparr>
       1
       \<lparr>key = [CHR 0x27], ctrlKey = False, metaKey = False, shiftKey = False, altKey = False\<rparr>
       (onMount 0 (init \<lparr>value = ''x'', selectionStart = 1, selectionEnd = 1\<rparr>))))
   = \<lparr>value = [CHR ''x'', CHR 0x27, CHR 0x27], selectionStart = 2, selectionEnd = 2\<rparr>"
proof -
  let ?ed = "onMount 0 (init \<lparr>value = ''x'', selectionStart = 1, selectionEnd = 1\<rparr>)"
  have ta: "textarea ?ed = \<lparr>value = ''x'', selectionStart = 1, selectionEnd = 1\<rparr>"
    by (simp add: onMount_def recordCurrentState_def init_def)
  have es: "element_state
      \<lparr>value = [CHR ''x'', CHR 0x27, CHR 0x27], selectionStart = 2, selectionEnd = 2\<rparr>"
    by (simp add: element_state_def element_text_def rec_inv_def)
  have k: "(key \<lparr>key = [CHR 0x27], ctrlKey = False, metaKey = False, shiftKey = False,
               altKey = False\<rparr>, CHR 0x27, CHR 0x27)
      \<in> set [(''('', CHR ''('', CHR '')''), (''['', CHR ''['', CHR '']''),
              (''{'', CHR ''{'', CHR ''}''), ([CHR 0x22], CHR 0x22, CHR 0x22),
              ([CHR 0x27], CHR 0x27, CHR 0x27), ([CHR 0x60], CHR 0x60, CHR 0x60)]"
    by simp
  note pair = insert_pair_at_caret [OF k ta, where now = 1 and env =
      "\<lparr>isWindows = False, isMacLike = False, insertSpaces = True, tabSize = 2, ignoreTabKey = False\<rparr>"]
  from pair have "element_state
      \<lparr>value = take (nat 1) ''x'' @ [CHR 0x27, CHR 0x27] @ drop (nat 1) ''x'',
       selectionStart = 1 + 1, selectionEnd = 1 + 1\<rparr> \<longrightarrow>
    textarea (snd (handleKeyDown
       \<lparr>isWindows = False, isMacLike = False, insertSpaces = True, tabSize = 2, ignoreTabKey = False\<rparr>
       1
       \<lparr>key = [CHR 0x27], ctrlKey = False, metaKey = False, shiftKey = False, altKey = False\<rparr>
       ?ed))
     = \<lparr>value = take (nat 1) ''x'' @ [CHR 0x27, CHR 0x27] @ drop (nat 1) ''x'',
       selectionStart = 1 + 1, selectionEnd = 1 + 1\<rparr>"
    by (rule conjunct2)
  with es show ?thesis by simp
qed

section \<open>Indent and unindent (C7, C3)\<close>

lemma indent_ab_cd:
  "\<forall>s \<in> set [0, 1, 2]. \<forall>e \<in> set [3, 4, 5].
     indent ''  '' (''ab'' @ CHR 0x0A # ''cd'') s e =
       \<lparr>value = ''  ab'' @ CHR 0x0A # ''  cd'',
        selectionStart = (if s = 0 then 0 else s + 2), selectionEnd = e + 4\<rparr>
     \<and> unindent ''  '' (''  ab'' @ CHR 0x0A # ''  cd'') (if s = 0 then 0 else s + 2) (e + 4) =
       Some \<lparr>value = ''ab'' @ CHR 0x0A # ''cd'', selectionStart = s, selectionEnd = e\<rparr>"
  by code_simp

lemma unindent_inside_indentation:
  "unindent (tabCharacter True 2) ''  ab'' 1 1
     = Some \<lparr>value = ''ab'', selectionStart = 1, selectionEnd = - 1\<rparr>"
  by code_simp

lemma three_changes_history:
  "history (run [Mount 0,
          Native 100 \<lparr>value = ''f'', selectionStart = 1, selectionEnd = 1\<rparr>,
          Native 200 \<lparr>value = ''fo'', selectionStart = 2, selectionEnd = 2\<rparr>,
          Native 300 \<lparr>value = ''foo'', selectionStart = 3, selectionEnd = 3\<rparr>]
        (init \<lparr>value = '''', selectionStart = 0, selectionEnd = 0\<rparr>))
   = \<lparr>stack = [\<lparr>value = '''', selectionStart = 0, selectionEnd = 0, timestamp = 0\<rparr>,
       \<lparr>value = ''f'', selectionStart = 1, selectionEnd = 1, timestamp = 100\<rparr>,
       \<lparr>value = ''fo'', selectionStart = 2, selectionEnd = 2, timestamp = 200\<rparr>,
       \<lparr>value = ''foo'', selectionStart = 3, selectionEnd = 3, timestamp = 300\<rparr>], offset = 3\<rparr>"
  by code_simp

lemma tabCharacter_two_spaces: "tabCharacter True 2 = ''  ''"
  by (simp add: tabCharacter_def repeat_def numeral_2_eq_2)

text \<open>
  C7. With \<open>tabSize = 2\<close> and \<open>insertSpaces\<close>, on the text \<open>ab\<newline>cd\<close> with a selection that
  starts in the first line and ends in the second, Tab gives the text with both lines
  indented by two spaces, and Shift+Tab on the result gives back the text and the
  selection bounds there were at the start.
\<close>

theorem indent_unindent_roundtrip:
  assumes env: "insertSpaces env" "tabSize env = 2" "\<not> ignoreTabKey env"
    and ed: "capture ed"
      "textarea ed = \<lparr>value = ''ab'' @ CHR 0x0A # ''cd'', selectionStart = s, selectionEnd = e\<rparr>"
    and sel: "0 \<le> s" "s \<le> 2" "3 \<le> e" "e \<le> 5"
    and tab: "key tab = ''Tab''" "\<not> shiftKey tab"
    and untab: "key untab = ''Tab''" "shiftKey untab"
  shows "value (textarea (snd (handleKeyDown env t1 tab ed))) = ''  ab'' @ CHR 0x0A # ''  cd''
     \<and> textarea (snd (handleKeyDown env t2 untab (snd (handleKeyDown env t1 tab ed))))
         = \<lparr>value = ''ab'' @ CHR 0x0A # ''cd'', selectionStart = s, selectionEnd = e\<rparr>"
proof -
  let ?s' = "if s = 0 then 0 else s + 2"
  let ?ind = "\<lparr>value = ''  ab'' @ CHR 0x0A # ''  cd'', selectionStart = ?s', selectionEnd = e + 4\<rparr>"
  from sel have mem: "s \<in> set [0, 1, 2]" "e \<in> set [3, 4, 5]" by auto
  from indent_ab_cd mem
  have i: "indent ''  '' (''ab'' @ CHR 0x0A # ''cd'') s e = ?ind"
    and u: "unindent ''  '' (''  ab'' @ CHR 0x0A # ''  cd'') ?s' (e + 4) =
       Some \<lparr>value = ''ab'' @ CHR 0x0A # ''cd'', selectionStart = s, selectionEnd = e\<rparr>"
    by blast+
  from sel have ne: "s \<noteq> e" by simp
  from sel have shown_ind: "shown ?ind = ?ind"
    by (intro shown_id) (simp add: element_state_def element_text_def rec_inv_def)
  from sel have shown_back:
    "shown \<lparr>value = ''ab'' @ CHR 0x0A # ''cd'', selectionStart = s, selectionEnd = e\<rparr>
       = \<lparr>value = ''ab'' @ CHR 0x0A # ''cd'', selectionStart = s, selectionEnd = e\<rparr>"
    by (intro shown_id) (simp add: element_state_def element_text_def rec_inv_def)
  let ?ed1 = "snd (handleKeyDown env t1 tab ed)"
  have ed1: "?ed1 = applyEdits t1 ?ind (ed\<lparr>dispatched := dispatched ed @ [Keydown tab]\<rparr>)"
    using handleKeyDown_Tab [of tab env ed t1] env ed tab ne i
    by (simp add: tabCharacter_two_spaces)
  have ta1: "textarea ?ed1 = ?ind" and cap1: "capture ?ed1"
    using ed(1) shown_ind unfolding ed1 by simp_all
  have "snd (handleKeyDown env t2 untab ?ed1) =
      applyEdits t2 \<lparr>value = ''ab'' @ CHR 0x0A # ''cd'', selectionStart = s, selectionEnd = e\<rparr>
        (?ed1\<lparr>dispatched := dispatched ?ed1 @ [Keydown untab]\<rparr>)"
    using handleKeyDown_Tab [of untab env ?ed1 t2] env cap1 untab u
    by (simp add: tabCharacter_two_spaces ta1)
  then show ?thesis using ta1 shown_back by simp
qed

theorem indent_unindent_roundtrip_witness:
  "textarea (snd (handleKeyDown
       \<lparr>isWindows = False, isMacLike = False, insertSpaces = True, tabSize = 2, ignoreTabKey = False\<rparr>
       2
       \<lparr>key = ''Tab'', ctrlKey = False, metaKey = False, shiftKey = True, altKey = False\<rparr>
       (snd (handleKeyDown
          \<lparr>isWindows = False, isMacLike = False, insertSpaces = True, tabSize = 2, ignoreTabKey = False\<rparr>
          1
          \<lparr>key = ''Tab'', ctrlKey = False, metaKey = False, shiftKey = False, altKey = False\<rparr>
          (onMount 0 (init \<lparr>value = ''ab'' @ CHR 0x0A # ''cd'', selectionStart = 0, selectionEnd = 5\<rparr>))))))
   = \<lparr>value = ''ab'' @ CHR 0x0A # ''cd'', selectionStart = 0, selectionEnd = 5\<rparr>"
proof -
  let ?ed = "onMount 0 (init \<lparr>value = ''ab'' @ CHR 0x0A # ''cd'', selectionStart = 0, selectionEnd = 5\<rparr>)"
  have "capture ?ed"
    and "textarea ?ed = \<lparr>value = ''ab'' @ CHR 0x0A # ''cd'', selectionStart = 0, selectionEnd = 5\<rparr>"
    by (simp_all add: onMount_def recordCurrentState_def init_def)
  from indent_unindent_roundtrip [OF _ _ _ this, of
      "\<lparr>isWindows = False, isMacLike = False, insertSpaces = True, tabSize = 2, ignoreTabKey = False\<rparr>"
      "\<lparr>key = ''Tab'', ctrlKey = False, metaKey = False, shiftKey = False, altKey = False\<rparr>"
      "\<lparr>key = ''Tab'', ctrlKey = False, metaKey = False, shiftKey = True, altKey = False\<rparr>" 1 2]
  show ?thesis by simp
qed

text \<open>
  C3. The claim says that every record of a structural edit keeps the invariant of records.
  Shift+Tab breaks it when the caret stands inside the indentation that is removed: the
  start of the selection moves only if the text of the line before the caret starts with
  \<open>tabCharacter\<close>, while the end moves by all the characters removed. On \<open>''  ab''\<close> with the
  caret at 1 the record given to \<open>applyEdits\<close> and pushed on the stack has
  \<open>selectionStart = 1\<close> and \<open>selectionEnd = -1\<close>; the element, which takes \<open>-1\<close> as a
  position beyond the text, then holds the selection from 1 to 2.
\<close>

theorem unindent_breaks_record_invariant:
  "rec_inv \<lparr>value = ''  ab'', selectionStart = 1, selectionEnd = 1\<rparr>
   \<and> handleKeyDown
        \<lparr>isWindows = False, isMacLike = False, insertSpaces = True, tabSize = 2, ignoreTabKey = False\<rparr>
        1
        \<lparr>key = ''Tab'', ctrlKey = False, metaKey = False, shiftKey = True, altKey = False\<rparr>
        (onMount 0 (init \<lparr>value = ''  ab'', selectionStart = 1, selectionEnd = 1\<rparr>))
      = (True, applyEdits 1 \<lparr>value = ''ab'', selectionStart = 1, selectionEnd = - 1\<rparr>
          ((onMount 0 (init \<lparr>value = ''  ab'', selectionStart = 1, selectionEnd = 1\<rparr>))
             \<lparr>dispatched := [Keydown
                \<lparr>key = ''Tab'', ctrlKey = False, metaKey = False, shiftKey = True, altKey = False\<rparr>]\<rparr>))
   \<and> Rec.truncate (last (stack (history (snd (handleKeyDown
        \<lparr>isWindows = False, isMacLike = False, insertSpaces = True, tabSize = 2, ignoreTabKey = False\<rparr>
        1
        \<lparr>key = ''Tab'', ctrlKey = False, metaKey = False, shiftKey = True, altKey = False\<rparr>
        (onMount 0 (init \<lparr>value = ''  ab'', selectionStart = 1, selectionEnd = 1\<rparr>)))))))
      = \<lparr>value = ''ab'', selectionStart = 1, selectionEnd = - 1\<rparr>
   \<and> \<not> rec_inv \<lparr>value = ''ab'', selectionStart = 1, selectionEnd = - 1\<rparr>
   \<and> textarea (snd (handleKeyDown
        \<lparr>isWindows = False, isMacLike = False, insertSpaces = True, tabSize = 2, ignoreTabKey = False\<rparr>
        1
        \<lparr>key = ''Tab'', ctrlKey = False, metaKey = False, shiftKey = True, altKey = False\<rparr>
        (onMount 0 (init \<lparr>value = ''  ab'', selectionStart = 1, selectionEnd = 1\<rparr>))))
      = \<lparr>value = ''ab'', selectionStart = 1, selectionEnd = 2\<rparr>"
proof -
  let ?ed = "onMount 0 (init \<lparr>value = ''  ab'', selectionStart = 1, selectionEnd = 1\<rparr>)"
  have "capture ?ed" "dispatched ?ed = []"
    and "textarea ?ed = \<lparr>value = ''  ab'', selectionStart = 1, selectionEnd = 1\<rparr>"
    by (simp_all add: onMount_def recordCurrentState_def init_def)
  moreover have "shown \<lparr>value = ''ab'', selectionStart = 1, selectionEnd = - 1\<rparr>
      = \<lparr>value = ''ab'', selectionStart = 1, selectionEnd = 2\<rparr>"
    by (simp add: shown_def toUnsignedLong_def Let_def)
  ultimately show ?thesis
    by (simp add: handleKeyDown_Tab unindent_inside_indentation rec_inv_def
        applyEdits_def recordChange_push stamp_def Rec.defs Entry.defs)
qed

section \<open>Typing a word (C2)\<close>

text \<open>
  C2. The claim says that \<open>f\<close>, \<open>o\<close>, \<open>o\<close> typed within the time gap make one new entry,
  and that the word test succeeds whenever both lines end in a run of letters and digits
  and the new run starts with the old one. The pattern of \<open>recordChange\<close> needs a character
  outside the class before the run, so a word that begins its line never matches: after
  the mount on the empty text the three changes make three entries, an undo goes back to
  \<open>fo\<close>, and the word test of \<open>f\<close> against \<open>fo\<close> fails.
\<close>

theorem typing_foo_not_coalesced:
  "length (stack (history (run [Mount 0,
          Native 100 \<lparr>value = ''f'', selectionStart = 1, selectionEnd = 1\<rparr>,
          Native 200 \<lparr>value = ''fo'', selectionStart = 2, selectionEnd = 2\<rparr>,
          Native 300 \<lparr>value = ''foo'', selectionStart = 3, selectionEnd = 3\<rparr>]
        (init \<lparr>value = '''', selectionStart = 0, selectionEnd = 0\<rparr>)))) = 4
   \<and> value (textarea (undoEdit (run [Mount 0,
          Native 100 \<lparr>value = ''f'', selectionStart = 1, selectionEnd = 1\<rparr>,
          Native 200 \<lparr>value = ''fo'', selectionStart = 2, selectionEnd = 2\<rparr>,
          Native 300 \<lparr>value = ''foo'', selectionStart = 3, selectionEnd = 3\<rparr>]
        (init \<lparr>value = '''', selectionStart = 0, selectionEnd = 0\<rparr>)))) = ''fo''
   \<and> \<not> wordMerge \<lparr>value = ''f'', selectionStart = 1, selectionEnd = 1\<rparr>
                  \<lparr>value = ''fo'', selectionStart = 2, selectionEnd = 2\<rparr>"
  by code_simp

section \<open>Chains of coalescing changes\<close>


lemma dropRedo_id:
  assumes "0 \<le> offset h" "int (length (stack h)) = offset h + 1" "offset h + 1 \<le> HISTORY_LIMIT"
  shows "dropRedo h = h"
proof -
  have b: "0 \<le> offset h" "offset h < int (length (stack h))" using assms by auto
  show ?thesis
    using assms dropRedo_stack [OF b] dropRedo_offset [OF b]
    by (intro History.equality) (auto simp: HISTORY_LIMIT_def min_def)
qed

lemma recordChange_overwrite:
  assumes "js_index (stack h) (offset h) = Some lst"
    and "t - timestamp lst < HISTORY_TIME_GAP" "wordMerge (Rec.truncate lst) r"
  shows "recordChange t r True h =
           (dropRedo h)\<lparr>stack := (stack (dropRedo h))[nat (offset (dropRedo h)) := stamp r t]\<rparr>"
proof -
  from assms(1) have b: "0 \<le> offset h" "offset h < int (length (stack h))"
    and l: "stack h ! nat (offset h) = lst"
    by (auto simp: js_index_Some_iff)
  from dropRedo_top [OF b] l
  have "js_index (stack (dropRedo h)) (offset (dropRedo h)) = Some lst" by simp
  then show ?thesis using assms(2,3) by (simp add: recordChange_def Let_def)
qed

lemma nativeChange_history:
  "history (nativeChange t r ed) = recordChange t r True (history ed)"
  by (simp add: nativeChange_def handleChange_def)

lemma coalescing_chain_normal:
  assumes "0 \<le> offset (history ed)"
    "int (length (stack (history ed))) = offset (history ed) + 1"
    "offset (history ed) + 1 \<le> HISTORY_LIMIT"
    "stack (history ed) ! nat (offset (history ed)) = lst"
    "coalescing lst cs"
  shows "history (run (natives cs) ed) =
     (if cs = [] then history ed
      else (history ed)\<lparr>stack := (stack (history ed))[nat (offset (history ed)) :=
              stamp (snd (last cs)) (fst (last cs))]\<rparr>)"
  using assms
proof (induction cs arbitrary: ed lst)
  case Nil
  then show ?case by (simp add: natives_def)
next
  case (Cons c cs)
  obtain t r where c: "c = (t, r)" by (cases c)
  let ?h = "history ed"
  let ?ed1 = "nativeChange t r ed"
  from Cons.prems c have gap: "t - timestamp lst < HISTORY_TIME_GAP"
    and wm: "wordMerge (Rec.truncate lst) r" and rest: "coalescing (stamp r t) cs"
    by simp_all
  have idx: "js_index (stack ?h) (offset ?h) = Some lst"
    using Cons.prems by (simp add: js_index_def)
  have id: "dropRedo ?h = ?h"
    using Cons.prems by (intro dropRedo_id) simp_all
  have h1: "history ?ed1 = ?h\<lparr>stack := (stack ?h)[nat (offset ?h) := stamp r t]\<rparr>"
    using recordChange_overwrite [OF idx gap wm] by (simp add: nativeChange_history id)
  have inb: "nat (offset ?h) < length (stack ?h)" using Cons.prems by auto
  have "history (run (natives cs) ?ed1) =
     (if cs = [] then history ?ed1
      else (history ?ed1)\<lparr>stack := (stack (history ?ed1))[nat (offset (history ?ed1)) :=
              stamp (snd (last cs)) (fst (last cs))]\<rparr>)"
    using Cons.prems inb rest by (intro Cons.IH [of ?ed1 "stamp r t"]) (simp_all add: h1)
  then show ?case
    by (simp add: natives_def c h1)
qed

text \<open>
  C10. Let the entry at the offset be \<open>lst\<close>, and let a chain of native changes be such
  that each change comes less than 3000 ms after the one before it (the first after
  \<open>lst\<close>) and passes the word test against it. Whatever the length of the chain and the
  time it takes in all, the history after it is the history with the redo branch
  dropped in which the one entry at the offset is the last change of the chain with the
  time of that change: no entry is pushed.
\<close>

theorem coalescing_chain_single_entry:
  assumes "js_index (stack (history ed)) (offset (history ed)) = Some lst"
    and "coalescing lst cs" and "cs \<noteq> []"
  shows "history (run (natives cs) ed) =
           (dropRedo (history ed))\<lparr>stack := (stack (dropRedo (history ed)))
              [nat (offset (dropRedo (history ed))) := stamp (snd (last cs)) (fst (last cs))]\<rparr>
     \<and> length (stack (history (run (natives cs) ed))) = length (stack (dropRedo (history ed)))
     \<and> js_index (stack (history (run (natives cs) ed))) (offset (history (run (natives cs) ed)))
         = Some (stamp (snd (last cs)) (fst (last cs)))"
proof -
  let ?h = "history ed"
  let ?D = "dropRedo ?h"
  obtain t r cs' where cs: "cs = (t, r) # cs'" using assms(3) by (cases cs) auto
  from assms(2) cs have gap: "t - timestamp lst < HISTORY_TIME_GAP"
    and wm: "wordMerge (Rec.truncate lst) r" and rest: "coalescing (stamp r t) cs'"
    by simp_all
  from assms(1) have b: "0 \<le> offset ?h" "offset ?h < int (length (stack ?h))"
    by (auto simp: js_index_Some_iff)
  note len = dropRedo_length [OF b] and off = dropRedo_offset [OF b]
  have off0: "0 \<le> offset ?D" using off b by simp
  have inb: "nat (offset ?D) < length (stack ?D)" using len off0 by linarith
  let ?ed1 = "nativeChange t r ed"
  have h1: "history ?ed1 = ?D\<lparr>stack := (stack ?D)[nat (offset ?D) := stamp r t]\<rparr>"
    using recordChange_overwrite [OF assms(1) gap wm] by (simp add: nativeChange_history)
  have chain: "history (run (natives cs') ?ed1) =
     (if cs' = [] then history ?ed1
      else (history ?ed1)\<lparr>stack := (stack (history ?ed1))[nat (offset (history ?ed1)) :=
              stamp (snd (last cs')) (fst (last cs'))]\<rparr>)"
    using off0 len off inb rest
    by (intro coalescing_chain_normal [of ?ed1 "stamp r t"])
       (simp_all add: h1 HISTORY_LIMIT_def)
  have eq: "history (run (natives cs) ed) =
      ?D\<lparr>stack := (stack ?D)[nat (offset ?D) := stamp (snd (last cs)) (fst (last cs))]\<rparr>"
    using chain by (simp add: cs natives_def h1)
  show ?thesis
    unfolding eq using inb off0 by (simp add: js_index_def)
qed

text \<open>A chain of three changes, 2500 ms apart and 7500 ms in all, after the change that
  began the word: the stack still has the entry of the mount and one entry for the word.\<close>

theorem coalescing_chain_single_entry_witness:
  "js_index (stack (history (run
        [Mount 0, Native 1000 \<lparr>value = '' f'', selectionStart = 2, selectionEnd = 2\<rparr>]
        (init \<lparr>value = '' '', selectionStart = 1, selectionEnd = 1\<rparr>))))
     (offset (history (run
        [Mount 0, Native 1000 \<lparr>value = '' f'', selectionStart = 2, selectionEnd = 2\<rparr>]
        (init \<lparr>value = '' '', selectionStart = 1, selectionEnd = 1\<rparr>))))
     = Some \<lparr>value = '' f'', selectionStart = 2, selectionEnd = 2, timestamp = 1000\<rparr>
   \<and> coalescing \<lparr>value = '' f'', selectionStart = 2, selectionEnd = 2, timestamp = 1000\<rparr>
        [(3500, \<lparr>value = '' fo'', selectionStart = 3, selectionEnd = 3\<rparr>),
         (6000, \<lparr>value = '' foo'', selectionStart = 4, selectionEnd = 4\<rparr>),
         (8500, \<lparr>value = '' food'', selectionStart = 5, selectionEnd = 5\<rparr>)]
   \<and> stack (history (run (natives
        [(3500, \<lparr>value = '' fo'', selectionStart = 3, selectionEnd = 3\<rparr>),
         (6000, \<lparr>value = '' foo'', selectionStart = 4, selectionEnd = 4\<rparr>),
         (8500, \<lparr>value = '' food'', selectionStart = 5, selectionEnd = 5\<rparr>)])
        (run [Mount 0, Native 1000 \<lparr>value = '' f'', selectionStart = 2, selectionEnd = 2\<rparr>]
          (init \<lparr>value = '' '', selectionStart = 1, selectionEnd = 1\<rparr>))))
     = [\<lparr>value = '' '', selectionStart = 1, selectionEnd = 1, timestamp = 0\<rparr>,
        \<lparr>value = '' food'', selectionStart = 5, selectionEnd = 5, timestamp = 8500\<rparr>]"
proof -
  let ?ed = "run [Mount 0, Native 1000 \<lparr>value = '' f'', selectionStart = 2, selectionEnd = 2\<rparr>]
        (init \<lparr>value = '' '', selectionStart = 1, selectionEnd = 1\<rparr>)"
  let ?lst = "\<lparr>value = '' f'', selectionStart = 2, selectionEnd = 2, timestamp = 1000\<rparr>"
  let ?cs = "[(3500, \<lparr>value = '' fo'', selectionStart = 3, selectionEnd = 3\<rparr>),
         (6000, \<lparr>value = '' foo'', selectionStart = 4, selectionEnd = 4\<rparr>),
         (8500, \<lparr>value = '' food'', selectionStart = 5, selectionEnd = 5\<rparr>)]
           :: (int \<times> Rec) list"
  have h: "history ?ed = \<lparr>stack =
      [\<lparr>value = '' '', selectionStart = 1, selectionEnd = 1, timestamp = 0\<rparr>, ?lst], offset = 1\<rparr>"
    by code_simp
  have d: "dropRedo \<lparr>stack =
      [\<lparr>value = '' '', selectionStart = 1, selectionEnd = 1, timestamp = 0\<rparr>, ?lst], offset = 1\<rparr>
     = \<lparr>stack =
      [\<lparr>value = '' '', selectionStart = 1, selectionEnd = 1, timestamp = 0\<rparr>, ?lst], offset = 1\<rparr>"
    by code_simp
  have a: "js_index (stack (history ?ed)) (offset (history ?ed)) = Some ?lst"
    unfolding h by (simp add: js_index_def)
  have b: "coalescing ?lst ?cs" by code_simp
  have c: "?cs \<noteq> []" by simp
  note chain = coalescing_chain_single_entry [OF a b c, unfolded h d]
  from chain a b show ?thesis by (simp add: stamp_def Rec.defs Entry.defs)
qed


section \<open>Undo and redo after structural edits\<close>

lemma truncate_stamp [simp]: "Rec.truncate (stamp r t) = r"
  by (simp add: stamp_def Rec.defs Entry.defs)

lemma History_offset_same [simp]: "(h::History)\<lparr>offset := offset h\<rparr> = h"
  by simp

lemma undoEdit_pointed:
  assumes "pointed ed"
  shows "pointed (undoEdit ed)
     \<and> history (undoEdit ed) = (history ed)\<lparr>offset := max (offset (history ed) - 1) 0\<rparr>"
proof (cases "js_index (stack (history ed)) (offset (history ed) - 1)")
  case None
  then have "offset (history ed) = 0" using assms by (auto simp: js_index_None_iff pointed_def)
  then show ?thesis using assms None by (simp add: undoEdit_None)
next
  case (Some r)
  then show ?thesis
    by (auto simp: undoEdit_Some pointed_def js_index_Some_iff)
qed

lemma redoEdit_pointed:
  assumes "pointed ed"
  shows "pointed (redoEdit ed)
     \<and> history (redoEdit ed) = (history ed)\<lparr>offset :=
          min (offset (history ed) + 1) (int (length (stack (history ed))) - 1)\<rparr>"
proof (cases "js_index (stack (history ed)) (offset (history ed) + 1)")
  case None
  then have "offset (history ed) = int (length (stack (history ed))) - 1"
    using assms by (auto simp: js_index_None_iff pointed_def)
  then show ?thesis using assms None by (simp add: redoEdit_None)
next
  case (Some r)
  then show ?thesis
    by (auto simp: redoEdit_Some pointed_def js_index_Some_iff)
qed

lemma undo_pow:
  assumes "pointed ed"
  shows "pointed ((undoEdit ^^ n) ed)
     \<and> history ((undoEdit ^^ n) ed) = (history ed)\<lparr>offset := max (offset (history ed) - int n) 0\<rparr>"
proof (induction n)
  case 0
  from assms have "0 \<le> offset (history ed)" by (simp add: pointed_def)
  then show ?case using assms by simp
next
  case (Suc n)
  from undoEdit_pointed [of "(undoEdit ^^ n) ed"] Suc
  show ?case by (auto simp: max_def)
qed

lemma redo_pow:
  assumes "pointed ed"
  shows "pointed ((redoEdit ^^ n) ed)
     \<and> history ((redoEdit ^^ n) ed) = (history ed)\<lparr>offset :=
          min (offset (history ed) + int n) (int (length (stack (history ed))) - 1)\<rparr>"
proof (induction n)
  case 0
  from assms have "offset (history ed) \<le> int (length (stack (history ed))) - 1"
    by (simp add: pointed_def)
  then show ?case using assms by (simp add: min_def)
next
  case (Suc n)
  from redoEdit_pointed [of "(redoEdit ^^ n) ed"] Suc
  show ?case by (auto simp: min_def)
qed

lemma undo_redo_pow:
  assumes "pointed ed" "offset (history ed) = int (length (stack (history ed))) - 1"
  shows "history ((redoEdit ^^ n) ((undoEdit ^^ n) ed)) = history ed
     \<and> textarea ((redoEdit ^^ n) ((undoEdit ^^ n) ed)) = textarea ed"
proof -
  let ?u = "(undoEdit ^^ n) ed"
  let ?r = "(redoEdit ^^ n) ?u"
  from undo_pow [OF assms(1), of n]
  have pu: "pointed ?u"
    and hu: "history ?u = (history ed)\<lparr>offset := max (offset (history ed) - int n) 0\<rparr>"
    by simp_all
  from redo_pow [OF pu, of n]
  have pr: "pointed ?r"
    and hr: "history ?r = (history ?u)\<lparr>offset :=
          min (offset (history ?u) + int n) (int (length (stack (history ?u))) - 1)\<rparr>"
    by simp_all
  have "0 \<le> offset (history ed)" using assms(1) by (simp add: pointed_def)
  then have h: "history ?r = history ed"
    unfolding hr hu using assms(2) by (simp add: min_def max_def)
  moreover have "textarea ?r = textarea ed"
    using pr assms(1) unfolding pointed_def h by simp
  ultimately show ?thesis by simp
qed

text \<open>After a structural edit in a state with a current entry.\<close>

lemma applyEdits_history:
  "history (applyEdits t r ed) =
     (dropRedo (backPatch ed))\<lparr>stack := stack (dropRedo (backPatch ed)) @ [stamp r t],
        offset := offset (dropRedo (backPatch ed)) + 1\<rparr>"
  by (simp add: applyEdits_def recordChange_push)

lemma applyEdits_after:
  assumes "0 \<le> offset (history ed)" "offset (history ed) < int (length (stack (history ed)))"
  shows "2 \<le> length (stack (history (applyEdits t r ed)))"
    and "offset (history (applyEdits t r ed)) = int (length (stack (history (applyEdits t r ed)))) - 1"
    and "last (stack (history (applyEdits t r ed))) = stamp r t"
    and "stack (history (applyEdits t r ed)) ! (length (stack (history (applyEdits t r ed))) - 2)
           = (stack (history ed) ! nat (offset (history ed)))
               \<lparr>selectionStart := selectionStart (textarea ed),
                selectionEnd := selectionEnd (textarea ed)\<rparr>"
proof -
  let ?B = "backPatch ed"
  let ?D = "dropRedo ?B"
  have b: "0 \<le> offset ?B" "offset ?B < int (length (stack ?B))" using assms by simp_all
  note len = dropRedo_length [OF b] and off = dropRedo_offset [OF b] and lst = dropRedo_last [OF b]
  have off0: "0 \<le> offset ?D" using off b by simp
  have n: "length (stack ?D) = nat (offset ?D) + 1" using len off0 by linarith
  have patched: "stack ?B ! nat (offset (history ed)) =
      (stack (history ed) ! nat (offset (history ed)))
               \<lparr>selectionStart := selectionStart (textarea ed),
                selectionEnd := selectionEnd (textarea ed)\<rparr>"
    using assms by (simp add: backPatch_def js_index_def)
  show "2 \<le> length (stack (history (applyEdits t r ed)))"
    by (simp add: applyEdits_history n)
  show "offset (history (applyEdits t r ed)) = int (length (stack (history (applyEdits t r ed)))) - 1"
    by (simp add: applyEdits_history len)
  show "last (stack (history (applyEdits t r ed))) = stamp r t"
    by (simp add: applyEdits_history)
  show "stack (history (applyEdits t r ed)) ! (length (stack (history (applyEdits t r ed))) - 2)
           = (stack (history ed) ! nat (offset (history ed)))
               \<lparr>selectionStart := selectionStart (textarea ed),
                selectionEnd := selectionEnd (textarea ed)\<rparr>"
    using lst patched by (simp add: applyEdits_history n nth_append)
qed

lemma applyEdits_pointed:
  assumes "0 \<le> offset (history ed)" "offset (history ed) < int (length (stack (history ed)))"
  shows "pointed (applyEdits t r ed)"
proof -
  note a = applyEdits_after [OF assms, of t r]
  let ?S = "stack (history (applyEdits t r ed))"
  have ne: "?S \<noteq> []" using a(1) by auto
  have i: "nat (offset (history (applyEdits t r ed))) = length ?S - 1"
    using a(2) by linarith
  have top: "?S ! nat (offset (history (applyEdits t r ed))) = stamp r t"
    unfolding i using ne a(3) by (simp add: last_conv_nth)
  have "0 \<le> offset (history (applyEdits t r ed))"
    "offset (history (applyEdits t r ed)) < int (length ?S)"
    using a(1) a(2) by linarith+
  then show ?thesis unfolding pointed_def top by simp
qed

lemma select_history [simp]: "history (select s e ed) = history ed"
  by (simp add: select_def)

lemma select_value [simp]: "value (textarea (select s e ed)) = value (textarea ed)"
  by (simp add: select_def)

lemma select_rec_inv: "rec_inv (textarea (select s e ed))"
  by (simp add: select_def rec_inv_setSelectionRange)

lemma onMount_init:
  "history (onMount t0 (init ta)) = \<lparr>stack = [stamp ta t0], offset = 0\<rparr>"
  "textarea (onMount t0 (init ta)) = ta"
  by (simp_all add: onMount_def recordCurrentState_def init_def recordChange_push dropRedo_outside)

lemma afterEdits_Nil: "afterEdits ta t0 [] = onMount t0 (init ta)"
  by (simp add: afterEdits_def edits_def)

lemma afterEdits_snoc:
  "afterEdits ta t0 (steps @ [(s, e, t, r)]) = applyEdits t r (select s e (afterEdits ta t0 steps))"
  by (simp add: afterEdits_def edits_def)

lemma afterEdits_bounds:
  "0 \<le> offset (history (afterEdits ta t0 steps))"
  "offset (history (afterEdits ta t0 steps))
     = int (length (stack (history (afterEdits ta t0 steps)))) - 1"
proof (induction steps rule: rev_induct)
  case Nil
  {
    case 1
    show ?case by (simp add: afterEdits_Nil onMount_init)
  next
    case 2
    show ?case by (simp add: afterEdits_Nil onMount_init)
  }
next
  case (snoc x steps)
  obtain s e t r where x: "x = (s, e, t, r)" by (cases x)
  let ?ed = "select s e (afterEdits ta t0 steps)"
  have b: "0 \<le> offset (history ?ed)" "offset (history ?ed) < int (length (stack (history ?ed)))"
    using snoc by simp_all
  note a = applyEdits_after [OF b, of t r]
  {
    case 1
    from a(1) a(2) show ?case unfolding x afterEdits_snoc by linarith
  next
    case 2
    from a(2) show ?case by (simp add: x afterEdits_snoc)
  }
qed

lemma afterEdits_in_range:
  "offset (history (afterEdits ta t0 steps))
     < int (length (stack (history (afterEdits ta t0 steps))))"
  using afterEdits_bounds(2) [of ta t0 steps] by simp

lemma afterEdits_pointed:
  assumes "steps \<noteq> []"
  shows "pointed (afterEdits ta t0 steps)"
proof -
  from assms obtain steps' s e t r where st: "steps = steps' @ [(s, e, t, r)]"
    by (metis rev_exhaust prod_cases4)
  let ?ed = "select s e (afterEdits ta t0 steps')"
  have b: "0 \<le> offset (history ?ed)" "offset (history ?ed) < int (length (stack (history ?ed)))"
    using afterEdits_bounds(1) [of ta t0 steps'] afterEdits_in_range [of ta t0 steps']
    by simp_all
  from applyEdits_pointed [OF b] show ?thesis by (simp add: st afterEdits_snoc)
qed

lemma value_stamp [simp]: "value (stamp r t) = value r"
  by (simp add: stamp_def Rec.defs Entry.defs)

text \<open>When the texts written are texts an element can hold, the element and the entry at the
  offset have the same text.\<close>

lemma afterEdits_text:
  assumes "element_text (value ta)"
    and "list_all (\<lambda>(s, e, t, r). element_text (value r)) steps"
  shows "value (textarea (afterEdits ta t0 steps))
           = value (stack (history (afterEdits ta t0 steps))
               ! nat (offset (history (afterEdits ta t0 steps))))
       \<and> element_text (value (textarea (afterEdits ta t0 steps)))"
  using assms(2)
proof (induction steps rule: rev_induct)
  case Nil
  show ?case using assms(1) by (simp add: afterEdits_Nil onMount_init)
next
  case (snoc x steps)
  obtain s e t r where x: "x = (s, e, t, r)" by (cases x)
  from snoc.prems x have r: "element_text (value r)" by simp
  let ?ed = "select s e (afterEdits ta t0 steps)"
  let ?ed' = "applyEdits t r ?ed"
  let ?S = "stack (history ?ed')"
  have b: "0 \<le> offset (history ?ed)" "offset (history ?ed) < int (length (stack (history ?ed)))"
    using afterEdits_bounds(1) [of ta t0 steps] afterEdits_in_range [of ta t0 steps]
    by simp_all
  note a = applyEdits_after [OF b, of t r]
  have ne: "?S \<noteq> []" using a(1) by auto
  have i: "nat (offset (history ?ed')) = length ?S - 1" using a(2) by linarith
  have top: "?S ! nat (offset (history ?ed')) = stamp r t"
    unfolding i using ne a(3) by (simp add: last_conv_nth)
  show ?case
    unfolding x afterEdits_snoc top using r by (simp add: shown_value)
qed

text \<open>Selection fidelity: the undo of the last structural edit gives the element the entry
  just before the last one, and that is the text and the selection the element had when
  the edit began.\<close>

lemma undo_restores_surface:
  assumes "element_text (value ta)"
    and "list_all (\<lambda>(s, e, t, r). element_text (value r)) steps"
  shows "textarea (undoEdit (afterEdits ta t0 (steps @ [(s, e, t, r)])))
           = textarea (select s e (afterEdits ta t0 steps))"
    and "textarea (undoEdit (afterEdits ta t0 (steps @ [(s, e, t, r)])))
           = Rec.truncate (stack (history (afterEdits ta t0 (steps @ [(s, e, t, r)])))
               ! (length (stack (history (afterEdits ta t0 (steps @ [(s, e, t, r)])))) - 2))"
proof -
  let ?base = "afterEdits ta t0 steps"
  let ?ed = "select s e ?base"
  let ?ed' = "applyEdits t r ?ed"
  let ?S = "stack (history ?ed')"
  have b: "0 \<le> offset (history ?ed)" "offset (history ?ed) < int (length (stack (history ?ed)))"
    using afterEdits_bounds(1) [of ta t0 steps] afterEdits_in_range [of ta t0 steps]
    by simp_all
  note a = applyEdits_after [OF b, of t r]
  have idx: "js_index ?S (offset (history ?ed') - 1) = Some (?S ! (length ?S - 2))"
  proof -
    have "nat (int (length ?S) - 2) = length ?S - 2" by simp
    then show ?thesis using a(1) a(2) by (simp add: js_index_def)
  qed
  have shown: "textarea (undoEdit ?ed') = shown (Rec.truncate (?S ! (length ?S - 2)))"
    by (simp add: undoEdit_Some [OF idx])
  note texts = afterEdits_text [OF assms, of t0]
  have "Rec.truncate (?S ! (length ?S - 2)) =
      \<lparr>value = value (textarea ?ed), selectionStart = selectionStart (textarea ?ed),
       selectionEnd = selectionEnd (textarea ?ed)\<rparr>"
    unfolding a(4) using texts by (simp add: Rec.defs)
  then have entry: "Rec.truncate (?S ! (length ?S - 2)) = textarea ?ed" by simp
  from texts have "element_text (value (textarea ?base))" by (rule conjunct2)
  then have "element_state (textarea ?ed)"
    using select_rec_inv [of s e ?base] by (simp add: element_state_def)
  then have "shown (textarea ?ed) = textarea ?ed" by (rule shown_id)
  then show "textarea (undoEdit (afterEdits ta t0 (steps @ [(s, e, t, r)]))) = textarea ?ed"
    unfolding afterEdits_snoc shown entry .
  then show "textarea (undoEdit (afterEdits ta t0 (steps @ [(s, e, t, r)])))
           = Rec.truncate (stack (history (afterEdits ta t0 (steps @ [(s, e, t, r)])))
               ! (length (stack (history (afterEdits ta t0 (steps @ [(s, e, t, r)])))) - 2))"
    unfolding afterEdits_snoc entry .
qed

lemma funpow_fixed: "f x = x \<Longrightarrow> (f ^^ n) x = x"
  by (induction n) simp_all

text \<open>
  C4. After the mount and any sequence of structural edits (with any moves of the
  selection before each): if there was at least one edit, the last entry of the stack
  is the record of the last edit and the offset is on it; one \<open>undoEdit\<close> then gives the
  element the text and selection of the entry just before it, the texts of the mount and
  of the edits being texts an element can hold; and \<open>n\<close> times \<open>undoEdit\<close> followed by
  \<open>n\<close> times \<open>redoEdit\<close> leaves the history (stack and offset) and the text and selection
  of the element as they were before the undos.
\<close>

theorem undo_redo_inverse:
  "(steps \<noteq> [] \<longrightarrow>
      2 \<le> length (stack (history (afterEdits ta t0 steps)))
      \<and> offset (history (afterEdits ta t0 steps))
           = int (length (stack (history (afterEdits ta t0 steps)))) - 1
      \<and> Rec.truncate (last (stack (history (afterEdits ta t0 steps)))) = snd (snd (snd (last steps))))
   \<and> (steps \<noteq> [] \<and> element_text (value ta)
        \<and> list_all (\<lambda>(s, e, t, r). element_text (value r)) steps \<longrightarrow>
      textarea (undoEdit (afterEdits ta t0 steps))
           = Rec.truncate (stack (history (afterEdits ta t0 steps))
                ! (length (stack (history (afterEdits ta t0 steps))) - 2)))
   \<and> history ((redoEdit ^^ n) ((undoEdit ^^ n) (afterEdits ta t0 steps)))
        = history (afterEdits ta t0 steps)
   \<and> textarea ((redoEdit ^^ n) ((undoEdit ^^ n) (afterEdits ta t0 steps)))
        = textarea (afterEdits ta t0 steps)"
proof -
  have stack: "steps \<noteq> [] \<longrightarrow>
      2 \<le> length (stack (history (afterEdits ta t0 steps)))
      \<and> offset (history (afterEdits ta t0 steps))
           = int (length (stack (history (afterEdits ta t0 steps)))) - 1
      \<and> Rec.truncate (last (stack (history (afterEdits ta t0 steps)))) = snd (snd (snd (last steps)))"
  proof
    assume "steps \<noteq> []"
    then obtain steps' s e t r where st: "steps = steps' @ [(s, e, t, r)]"
      by (metis rev_exhaust prod_cases4)
    let ?ed = "select s e (afterEdits ta t0 steps')"
    have b: "0 \<le> offset (history ?ed)" "offset (history ?ed) < int (length (stack (history ?ed)))"
      using afterEdits_bounds(1) [of ta t0 steps'] afterEdits_in_range [of ta t0 steps']
      by simp_all
    note a = applyEdits_after [OF b, of t r]
    from a(1,2,3)
    show "2 \<le> length (stack (history (afterEdits ta t0 steps)))
      \<and> offset (history (afterEdits ta t0 steps))
           = int (length (stack (history (afterEdits ta t0 steps)))) - 1
      \<and> Rec.truncate (last (stack (history (afterEdits ta t0 steps)))) = snd (snd (snd (last steps)))"
      unfolding st afterEdits_snoc by simp
  qed
  have undo: "steps \<noteq> [] \<and> element_text (value ta)
        \<and> list_all (\<lambda>(s, e, t, r). element_text (value r)) steps \<longrightarrow>
      textarea (undoEdit (afterEdits ta t0 steps))
           = Rec.truncate (stack (history (afterEdits ta t0 steps))
                ! (length (stack (history (afterEdits ta t0 steps))) - 2))"
  proof
    assume h: "steps \<noteq> [] \<and> element_text (value ta)
        \<and> list_all (\<lambda>(s, e, t, r). element_text (value r)) steps"
    then obtain steps' s e t r where st: "steps = steps' @ [(s, e, t, r)]"
      by (metis rev_exhaust prod_cases4)
    from h st have "element_text (value ta)"
      and "list_all (\<lambda>(s, e, t, r). element_text (value r)) steps'"
      by simp_all
    from undo_restores_surface(2) [OF this, of t0 s e t r]
    show "textarea (undoEdit (afterEdits ta t0 steps))
           = Rec.truncate (stack (history (afterEdits ta t0 steps))
                ! (length (stack (history (afterEdits ta t0 steps))) - 2))"
      unfolding st .
  qed
  have round: "history ((redoEdit ^^ n) ((undoEdit ^^ n) (afterEdits ta t0 steps)))
        = history (afterEdits ta t0 steps)
   \<and> textarea ((redoEdit ^^ n) ((undoEdit ^^ n) (afterEdits ta t0 steps)))
        = textarea (afterEdits ta t0 steps)"
  proof (cases "steps = []")
    case True
    let ?ed = "onMount t0 (init ta)"
    have "undoEdit ?ed = ?ed"
      by (rule undoEdit_None) (simp add: onMount_init js_index_def)
    then have u: "(undoEdit ^^ n) ?ed = ?ed" by (rule funpow_fixed)
    have "redoEdit ?ed = ?ed"
      by (rule redoEdit_None) (simp add: onMount_init js_index_def)
    then have "(redoEdit ^^ n) ?ed = ?ed" by (rule funpow_fixed)
    then show ?thesis by (simp add: True afterEdits_Nil u)
  next
    case False
    from afterEdits_pointed [OF False, of ta t0] afterEdits_bounds(2) [of ta t0 steps]
    show ?thesis by (rule undo_redo_pow)
  qed
  from stack undo round show ?thesis by blast
qed

text \<open>The mount on \<open>a\<close>, the pair \<open>()\<close> inserted at the caret, and the text \<open>a()\<close> selected
  and wrapped in brackets: the undo shows \<open>a()\<close> selected from 0 to 3, and three undos
  followed by three redos show \<open>[a()]\<close> selected from 0 to 5 again.\<close>

theorem undo_redo_inverse_witness:
  "[(1, 1, 10, \<lparr>value = ''a()'', selectionStart = 2, selectionEnd = 2\<rparr>),
    (0, 3, 20, \<lparr>value = ''[a()]'', selectionStart = 0, selectionEnd = 5\<rparr>)]
     \<noteq> ([] :: (int \<times> int \<times> int \<times> Rec) list)
   \<and> element_text ''a''
   \<and> list_all (\<lambda>(s, e, t, r). element_text (value r))
        [(1, 1, 10, \<lparr>value = ''a()'', selectionStart = 2, selectionEnd = 2\<rparr>),
         (0, 3, 20, \<lparr>value = ''[a()]'', selectionStart = 0, selectionEnd = 5\<rparr>)]
   \<and> textarea (undoEdit (afterEdits \<lparr>value = ''a'', selectionStart = 1, selectionEnd = 1\<rparr> 0
        [(1, 1, 10, \<lparr>value = ''a()'', selectionStart = 2, selectionEnd = 2\<rparr>),
         (0, 3, 20, \<lparr>value = ''[a()]'', selectionStart = 0, selectionEnd = 5\<rparr>)]))
       = \<lparr>value = ''a()'', selectionStart = 0, selectionEnd = 3\<rparr>
   \<and> history ((redoEdit ^^ 3) ((undoEdit ^^ 3)
        (afterEdits \<lparr>value = ''a'', selectionStart = 1, selectionEnd = 1\<rparr> 0
          [(1, 1, 10, \<lparr>value = ''a()'', selectionStart = 2, selectionEnd = 2\<rparr>),
           (0, 3, 20, \<lparr>value = ''[a()]'', selectionStart = 0, selectionEnd = 5\<rparr>)])))
       = history (afterEdits \<lparr>value = ''a'', selectionStart = 1, selectionEnd = 1\<rparr> 0
          [(1, 1, 10, \<lparr>value = ''a()'', selectionStart = 2, selectionEnd = 2\<rparr>),
           (0, 3, 20, \<lparr>value = ''[a()]'', selectionStart = 0, selectionEnd = 5\<rparr>)])
   \<and> textarea ((redoEdit ^^ 3) ((undoEdit ^^ 3)
        (afterEdits \<lparr>value = ''a'', selectionStart = 1, selectionEnd = 1\<rparr> 0
          [(1, 1, 10, \<lparr>value = ''a()'', selectionStart = 2, selectionEnd = 2\<rparr>),
           (0, 3, 20, \<lparr>value = ''[a()]'', selectionStart = 0, selectionEnd = 5\<rparr>)])))
       = \<lparr>value = ''[a()]'', selectionStart = 0, selectionEnd = 5\<rparr>"
proof -
  let ?steps = "[(1, 1, 10, \<lparr>value = ''a()'', selectionStart = 2, selectionEnd = 2\<rparr>),
    (0, 3, 20, \<lparr>value = ''[a()]'', selectionStart = 0, selectionEnd = 5\<rparr>)]
      :: (int \<times> int \<times> int \<times> Rec) list"
  let ?ta = "\<lparr>value = ''a'', selectionStart = 1, selectionEnd = 1\<rparr>"
  have st: "stack (history (afterEdits ?ta 0 ?steps)) =
      [\<lparr>value = ''a'', selectionStart = 1, selectionEnd = 1, timestamp = 0\<rparr>,
       \<lparr>value = ''a()'', selectionStart = 0, selectionEnd = 3, timestamp = 10\<rparr>,
       \<lparr>value = ''[a()]'', selectionStart = 0, selectionEnd = 5, timestamp = 20\<rparr>]"
    by code_simp
  have ta: "textarea (afterEdits ?ta 0 ?steps)
      = \<lparr>value = ''[a()]'', selectionStart = 0, selectionEnd = 5\<rparr>"
    by code_simp
  have texts: "element_text ''a''"
    "list_all (\<lambda>(s, e, t, r). element_text (value r)) ?steps"
    by (simp_all add: element_text_def)
  from undo_redo_inverse [of ?steps ?ta 0 3] texts
  show ?thesis by (simp add: st ta Rec.defs)
qed

section \<open>What the word pattern matches\<close>

text \<open>The pattern matches exactly the lines that end in a non-empty run of letters and
  digits with a character outside the class just before it; the group is the run. A line
  that is letters and digits throughout does not match.\<close>

lemma match_last_word_intro:
  "\<not> isAlnum c \<Longrightarrow> w \<noteq> [] \<Longrightarrow> list_all isAlnum w \<Longrightarrow> match_last_word (pre @ c # w) = Some w"
  by (induction pre) (auto simp: list_all_iff)

lemma match_last_word_elim:
  "match_last_word line = Some w \<Longrightarrow>
     \<exists>pre c. line = pre @ c # w \<and> \<not> isAlnum c \<and> w \<noteq> [] \<and> list_all isAlnum w"
proof (induction line)
  case Nil
  then show ?case by simp
next
  case (Cons a line)
  show ?case
  proof (cases "\<not> isAlnum a \<and> line \<noteq> [] \<and> list_all isAlnum line")
    case True
    with Cons.prems have "w = line" by simp
    with True show ?thesis by blast
  next
    case False
    with Cons.prems have "match_last_word line = Some w" by auto
    from Cons.IH [OF this] obtain pre c where
      "line = pre @ c # w" "\<not> isAlnum c" "w \<noteq> []" "list_all isAlnum w" by blast
    then have "a # line = (a # pre) @ c # w" by simp
    with \<open>\<not> isAlnum c\<close> \<open>w \<noteq> []\<close> \<open>list_all isAlnum w\<close> show ?thesis by blast
  qed
qed

lemma match_last_word_iff:
  "match_last_word line = Some w \<longleftrightarrow>
     (\<exists>pre c. line = pre @ c # w \<and> \<not> isAlnum c \<and> w \<noteq> [] \<and> list_all isAlnum w)"
  using match_last_word_intro match_last_word_elim by blast

lemma match_last_word_whole_word:
  "list_all isAlnum line \<Longrightarrow> match_last_word line = None"
  by (induction line) auto


section \<open>The other structural edits keep the invariant of records\<close>

text \<open>Tab at a caret, Backspace, Enter, the pair keys and Tab on a selection give a record
  with \<open>0 \<le> selectionStart \<le> selectionEnd \<le> length value\<close> whenever the element's text
  and selection have it.\<close>

lemma rec_inv_insertTab:
  assumes "rec_inv \<lparr>value = v, selectionStart = s, selectionEnd = s\<rparr>"
  shows "rec_inv (insertTab tabChar v s s)"
  using assms
  by (auto simp: rec_inv_def insertTab_def Let_def substring_0 substring_from_eq)

lemma rec_inv_backspace:
  assumes "rec_inv \<lparr>value = v, selectionStart = s, selectionEnd = e\<rparr>"
    and "backspace tabChar v s e = Some r"
  shows "rec_inv r"
  using assms
  by (auto simp: rec_inv_def backspace_def Let_def substring_0 substring_from_eq endsWith_def
      split: if_splits)

lemma rec_inv_enter:
  assumes "rec_inv \<lparr>value = v, selectionStart = s, selectionEnd = e\<rparr>"
    and "enter v s e = Some r"
  shows "rec_inv r"
  using assms
  by (auto simp: rec_inv_def enter_def Let_def substring_0 substring_from_eq
      split: if_splits option.splits)

lemma rec_inv_pair:
  assumes "rec_inv \<lparr>value = v, selectionStart = s, selectionEnd = e\<rparr>"
    and "pair k v s e = Some r"
  shows "rec_inv r"
proof -
  from assms(2) obtain chars where c: "PAIRS k = Some chars"
    by (auto simp: pair_def split: option.splits)
  then have l: "length (fst chars) = 1" "length (snd chars) = 1"
    by (auto simp: PAIRS_def split: if_splits)
  have sub: "length (substring v s e) = nat (e - s)"
    using assms(1) by (auto simp: rec_inv_def substring_def Let_def min_def max_def)
  show ?thesis
    using assms c l sub
    by (auto simp: rec_inv_def pair_def substring_0 substring_from_eq split: if_splits)
qed

lemma length_split_nl: "length (split_nl s) = Suc (length (filter (\<lambda>c. c = CHR 0x0A) s))"
proof (induction s)
  case Nil
  show ?case by simp
next
  case (Cons c s)
  then show ?case by (cases "split_nl s") auto
qed

lemma length_join_nl:
  "ls \<noteq> [] \<Longrightarrow> Suc (length (join_nl ls)) = sum_list (map length ls) + length ls"
  by (induction ls rule: join_nl.induct) auto

lemma join_split_nl: "join_nl (split_nl s) = s"
proof (induction s)
  case Nil
  show ?case by simp
next
  case (Cons c s)
  then show ?case
    by (cases "split_nl s"; cases "tl (split_nl s)") (auto split: list.splits)
qed

lemma sum_length_indent:
  "sum_list (map length (map (\<lambda>(i, x). if a \<le> int i \<and> int i \<le> b then tab @ x else x)
       (enumerate k ls)))
   = sum_list (map length ls)
     + length tab * length (filter (\<lambda>i. a \<le> int i \<and> int i \<le> b) [k..<k + length ls])"
proof (induction ls arbitrary: k)
  case Nil
  show ?case by simp
next
  case (Cons x ls)
  have "[k..<k + length (x # ls)] = k # [Suc k..<Suc k + length ls]"
    by (subst upt_rec) simp
  then show ?case using Cons [of "Suc k"] by (simp add: algebra_simps)
qed

lemma sum_length_map_index:
  "sum_list (map length (map_index (\<lambda>line i. if a \<le> i \<and> i \<le> b then tab @ line else line) ls))
   = sum_list (map length ls)
     + length tab * length (filter (\<lambda>i. a \<le> int i \<and> int i \<le> b) [0..<length ls])"
  unfolding map_index_def using sum_length_indent [of a b tab 0 ls] by simp

lemma count_interval_gen:
  "0 \<le> a \<Longrightarrow> int (length (filter (\<lambda>i. a \<le> int i \<and> int i \<le> b) [0..<n]))
     = max 0 (min (int n - 1) b - a + 1)"
  by (induction n) (auto simp: min_def max_def)

lemma count_interval:
  assumes "0 \<le> a" "a \<le> b" "b < int n"
  shows "int (length (filter (\<lambda>i. a \<le> int i \<and> int i \<le> b) [0..<n])) = b - a + 1"
  using assms count_interval_gen [OF assms(1), of b n] by (simp add: min_def max_def)

lemma filter_take_le:
  "length (filter P (take m xs)) \<le> length (filter P xs)"
proof -
  have "length (filter P xs) = length (filter P (take m xs)) + length (filter P (drop m xs))"
    by (metis append_take_drop_id filter_append length_append)
  then show ?thesis by simp
qed

lemma filter_take_mono:
  "m \<le> n \<Longrightarrow> length (filter P (take m xs)) \<le> length (filter P (take n xs))"
  using filter_take_le [of P m "take n xs"] by (simp add: min_def)

lemma map_index_Nil_iff [simp]: "map_index f xs = [] \<longleftrightarrow> xs = []"
  by (cases xs) (simp_all add: map_index_def)

lemma length_map_index [simp]: "length (map_index f xs) = length xs"
  by (simp add: map_index_def)

lemma rec_inv_indent:
  assumes "rec_inv \<lparr>value = v, selectionStart = s, selectionEnd = e\<rparr>"
  shows "rec_inv (indent tabChar v s e)"
proof -
  let ?nl = "\<lambda>c. c = CHR 0x0A"
  let ?a = "int (length (getLines v s)) - 1"
  let ?b = "int (length (getLines v e)) - 1"
  let ?f = "\<lambda>line i. if i \<ge> ?a \<and> i \<le> ?b then tabChar @ line else line"
  let ?ls = "split_nl v"
  from assms have sel: "0 \<le> s" "s \<le> e" "e \<le> int (length v)" by (simp_all add: rec_inv_def)
  have a: "?a = int (length (filter ?nl (take (nat s) v)))"
    and b: "?b = int (length (filter ?nl (take (nat e) v)))"
    by (simp_all add: getLines_def substring_0 length_split_nl)
  have ab: "0 \<le> ?a" "?a \<le> ?b" "?b < int (length ?ls)"
    unfolding a b using sel filter_take_mono [of "nat s" "nat e" ?nl v] filter_take_le [of ?nl "nat e" v]
    by (simp_all add: length_split_nl)
  let ?cnt = "length (filter (\<lambda>i. ?a \<le> int i \<and> int i \<le> ?b) [0..<length ?ls])"
  have e1: "Suc (length (join_nl (map_index ?f ?ls)))
      = sum_list (map length (map_index ?f ?ls)) + length ?ls"
    by (subst length_join_nl) simp_all
  have e2: "sum_list (map length (map_index ?f ?ls))
      = sum_list (map length ?ls) + length tabChar * ?cnt"
    by (rule sum_length_map_index)
  have e3: "sum_list (map length ?ls) + length ?ls = Suc (length v)"
    using length_join_nl [of ?ls] by (simp add: join_split_nl)
  have e4: "int ?cnt = ?b - ?a + 1"
    by (rule count_interval [OF ab])
  from e1 e2 e3 have "length (join_nl (map_index ?f ?ls)) = length v + length tabChar * ?cnt"
    by linarith
  then have "int (length (join_nl (map_index ?f ?ls)))
      = int (length v) + int (length tabChar) * int ?cnt"
    by simp
  then have len: "int (length (join_nl (map_index ?f ?ls)))
      = int (length v) + int (length tabChar) * (?b - ?a + 1)"
    unfolding e4 .
  have "0 \<le> int (length tabChar) * (?b - ?a)" using ab by simp
  then show ?thesis
    using sel len ab
    by (simp add: rec_inv_def indent_def Let_def algebra_simps)
qed

end
